theory Spec2Isabelle
  imports Main "HOL-Library.Word"
begin

unbundle bit_operations_syntax

section \<open>Bytes, little-endian words and the standard-library calls the codec relies on\<close>

text \<open>
  The package \<^verbatim>\<open>binary\<close> (files \<^verbatim>\<open>decoder.go\<close>, the encoder and the tag parser) is a
  reflection-driven codec.  It is embedded here as pure functions: the encode buffer
  (\<^verbatim>\<open>bytes.Buffer\<close>, append-only and never read back) is the list of bytes a call appends,
  the decode cursor (\<^verbatim>\<open>bytes.Reader\<close>) is the list of bytes not read yet, and a decode
  function returns the error (if any), the value the target holds afterwards, the store
  (the variables that pointers of the target share) afterwards and the reader afterwards.
  Go's \<^verbatim>\<open>int\<close> is taken to be 64 bits wide.
\<close>

type_synonym byte = "8 word"

text \<open>
  \<^verbatim>\<open>binary.LittleEndian.PutUintN\<close>: byte \<open>i\<close> is \<^verbatim>\<open>byte(v >> (8*i))\<close>;
  \<^verbatim>\<open>binary.LittleEndian.UintN\<close> is the inverse sum of shifted bytes.
\<close>

definition le_bytes :: "nat \<Rightarrow> 'a::len word \<Rightarrow> byte list" where
  "le_bytes k w = map (\<lambda>i. ucast (drop_bit (8 * i) w)) [0..<k]"

definition le_word :: "byte list \<Rightarrow> 'a::len word" where
  "le_word bs = foldr (\<lambda>b acc. ucast b OR push_bit 8 acc) bs 0"

datatype error =
    EOF                       \<comment> \<open>\<^verbatim>\<open>io.EOF\<close>\<close>
  | ErrUnexpectedEOF          \<comment> \<open>\<^verbatim>\<open>io.ErrUnexpectedEOF\<close>\<close>
  | InvalidType               \<comment> \<open>\<^verbatim>\<open>encoding/binary\<close> rejects a value that is not fixed-size (\<^verbatim>\<open>int\<close>)\<close>
  | NilPointer                \<comment> \<open>"cannot encode nil pointer"\<close>
  | UnsupportedType           \<comment> \<open>"unsupported type: %s"\<close>
  | EmptyTag                  \<comment> \<open>"empty tag"\<close>
  | IgnoreTag                 \<comment> \<open>"ignore tag"\<close>
  | InvalidTag string         \<comment> \<open>"invalid tag format: %s"\<close>
  | NotPointer                \<comment> \<open>"only pointers are supported for unmarshaling"\<close>
  | NilTarget                 \<comment> \<open>"cannot unmarshal into nil pointer"\<close>
  | TrailingData nat          \<comment> \<open>"warning: %d bytes of data remaining after unmarshaling"\<close>
  | Wrapped string error      \<comment> \<open>\<^verbatim>\<open>fmt.Errorf("<text>: %w", err)\<close>\<close>
  | UserError string          \<comment> \<open>an error made by a user-supplied \<^verbatim>\<open>MarshalBinary\<close>/\<^verbatim>\<open>UnmarshalBinary\<close>\<close>
  | Panic                     \<comment> \<open>a run-time panic: "invalid memory address or nil pointer dereference"\<close>

text \<open>
  The spec's \<^verbatim>\<open>InsufficientData\<close> is what the reads report when the cursor runs out:
  \<^verbatim>\<open>io.EOF\<close> or \<^verbatim>\<open>io.ErrUnexpectedEOF\<close>.
\<close>

definition insufficient_data :: "error \<Rightarrow> bool" where
  "insufficient_data e = (e = EOF \<or> e = ErrUnexpectedEOF)"

type_synonym reader = "byte list"

text \<open>
  \<^verbatim>\<open>(*bytes.Reader).Read(b)\<close> from the Go standard library:
  \<^verbatim>\<open>if r.i >= int64(len(r.s)) { return 0, io.EOF }; n = copy(b, r.s[r.i:]); r.i += int64(n); return\<close>.
  It reports \<^verbatim>\<open>io.EOF\<close> exactly when the reader is exhausted (also for an empty \<open>b\<close>),
  and otherwise copies as many bytes as are there, with no error when they are fewer than
  \<open>len(b)\<close>.  Every caller in this package passes a fresh \<^verbatim>\<open>make([]byte, n)\<close>, ignores the
  count and keeps the slice, so the model returns the slice after the call: the bytes read
  followed by the zeros that were not overwritten.
\<close>

definition Reader_Read :: "reader \<Rightarrow> nat \<Rightarrow> error option \<times> byte list \<times> reader" where
  "Reader_Read r n =
     (if r = [] then (Some EOF, replicate n 0, r)
      else (None, take n r @ replicate (n - length r) 0, drop n r))"

text \<open>
  \<^verbatim>\<open>io.ReadFull\<close> on a \<^verbatim>\<open>bytes.Reader\<close>: all \<open>n\<close> bytes or an error; \<^verbatim>\<open>io.EOF\<close> when nothing was
  read, \<^verbatim>\<open>io.ErrUnexpectedEOF\<close> after a partial read, which has consumed what was left.
\<close>

definition ReadFull :: "reader \<Rightarrow> nat \<Rightarrow> (error + byte list) \<times> reader" where
  "ReadFull r n =
     (if n \<le> length r then (Inr (take n r), drop n r)
      else if r = [] then (Inl EOF, r)
      else (Inl ErrUnexpectedEOF, []))"

text \<open>\<^verbatim>\<open>binary.Read(buf, binary.LittleEndian, &length)\<close> with \<^verbatim>\<open>var length uint32\<close>.\<close>

definition Read_uint32 :: "reader \<Rightarrow> (error + 32 word) \<times> reader" where
  "Read_uint32 r = (case ReadFull r 4 of
       (Inl e, r') \<Rightarrow> (Inl e, r')
     | (Inr bs, r') \<Rightarrow> (Inr (le_word bs), r'))"

text \<open>\<^verbatim>\<open>binary.Write(buf, binary.LittleEndian, length)\<close> with a \<^verbatim>\<open>uint32\<close>; it cannot fail.\<close>

definition Write_uint32 :: "32 word \<Rightarrow> byte list" where
  "Write_uint32 w = le_bytes 4 w"

section \<open>Scalars\<close>

text \<open>
  The scalar kinds of \<^verbatim>\<open>reflect.Kind\<close> that the two \<^verbatim>\<open>switch\<close> statements name.  Signed
  integers are kept as their two's-complement bit patterns and floats as their IEEE-754
  bit patterns (\<^verbatim>\<open>math.Float32bits\<close>, \<^verbatim>\<open>math.Float64bits\<close>), which is what
  \<^verbatim>\<open>encoding/binary\<close> writes and reads.
\<close>

datatype kind =
    KUint8 | KUint16 | KUint32 | KUint64
  | KInt8 | KInt16 | KInt32 | KInt64 | KInt
  | KBool | KFloat32 | KFloat64

datatype scalar =
    SUint8 "8 word" | SUint16 "16 word" | SUint32 "32 word" | SUint64 "64 word"
  | SInt8 "8 word" | SInt16 "16 word" | SInt32 "32 word" | SInt64 "64 word" | SInt "64 word"
  | SBool bool | SFloat32 "32 word" | SFloat64 "64 word"

fun kind_of :: "scalar \<Rightarrow> kind" where
  "kind_of (SUint8 _) = KUint8"
| "kind_of (SUint16 _) = KUint16"
| "kind_of (SUint32 _) = KUint32"
| "kind_of (SUint64 _) = KUint64"
| "kind_of (SInt8 _) = KInt8"
| "kind_of (SInt16 _) = KInt16"
| "kind_of (SInt32 _) = KInt32"
| "kind_of (SInt64 _) = KInt64"
| "kind_of (SInt _) = KInt"
| "kind_of (SBool _) = KBool"
| "kind_of (SFloat32 _) = KFloat32"
| "kind_of (SFloat64 _) = KFloat64"

fun zero_scalar :: "kind \<Rightarrow> scalar" where
  "zero_scalar KUint8 = SUint8 0"
| "zero_scalar KUint16 = SUint16 0"
| "zero_scalar KUint32 = SUint32 0"
| "zero_scalar KUint64 = SUint64 0"
| "zero_scalar KInt8 = SInt8 0"
| "zero_scalar KInt16 = SInt16 0"
| "zero_scalar KInt32 = SInt32 0"
| "zero_scalar KInt64 = SInt64 0"
| "zero_scalar KInt = SInt 0"
| "zero_scalar KBool = SBool False"
| "zero_scalar KFloat32 = SFloat32 0"
| "zero_scalar KFloat64 = SFloat64 0"

text \<open>The width in bytes of a fixed-size scalar; \<^verbatim>\<open>int\<close> has none for \<^verbatim>\<open>encoding/binary\<close>.\<close>

fun width :: "kind \<Rightarrow> nat" where
  "width KUint8 = 1"
| "width KUint16 = 2"
| "width KUint32 = 4"
| "width KUint64 = 8"
| "width KInt8 = 1"
| "width KInt16 = 2"
| "width KInt32 = 4"
| "width KInt64 = 8"
| "width KInt = 0"
| "width KBool = 1"
| "width KFloat32 = 4"
| "width KFloat64 = 8"

text \<open>
  \<^verbatim>\<open>binary.Write(buf, binary.LittleEndian, field.Interface())\<close> into a \<^verbatim>\<open>bytes.Buffer\<close>:
  the fixed-width little-endian bytes; a \<^verbatim>\<open>bool\<close> is one byte, 1 or 0; an \<^verbatim>\<open>int\<close> is
  refused ("some values are not fixed-sized").
\<close>

fun binary_Write :: "scalar \<Rightarrow> error + byte list" where
  "binary_Write (SUint8 w) = Inr (le_bytes 1 w)"
| "binary_Write (SUint16 w) = Inr (le_bytes 2 w)"
| "binary_Write (SUint32 w) = Inr (le_bytes 4 w)"
| "binary_Write (SUint64 w) = Inr (le_bytes 8 w)"
| "binary_Write (SInt8 w) = Inr (le_bytes 1 w)"
| "binary_Write (SInt16 w) = Inr (le_bytes 2 w)"
| "binary_Write (SInt32 w) = Inr (le_bytes 4 w)"
| "binary_Write (SInt64 w) = Inr (le_bytes 8 w)"
| "binary_Write (SInt w) = Inl InvalidType"
| "binary_Write (SBool b) = Inr [if b then 1 else 0]"
| "binary_Write (SFloat32 w) = Inr (le_bytes 4 w)"
| "binary_Write (SFloat64 w) = Inr (le_bytes 8 w)"

text \<open>The value \<^verbatim>\<open>encoding/binary\<close> builds from the bytes it has read, by kind.\<close>

fun scalar_of_bytes :: "kind \<Rightarrow> byte list \<Rightarrow> scalar" where
  "scalar_of_bytes KUint8 bs = SUint8 (le_word bs)"
| "scalar_of_bytes KUint16 bs = SUint16 (le_word bs)"
| "scalar_of_bytes KUint32 bs = SUint32 (le_word bs)"
| "scalar_of_bytes KUint64 bs = SUint64 (le_word bs)"
| "scalar_of_bytes KInt8 bs = SInt8 (le_word bs)"
| "scalar_of_bytes KInt16 bs = SInt16 (le_word bs)"
| "scalar_of_bytes KInt32 bs = SInt32 (le_word bs)"
| "scalar_of_bytes KInt64 bs = SInt64 (le_word bs)"
| "scalar_of_bytes KInt bs = SInt (le_word bs)"
| "scalar_of_bytes KBool bs = SBool (case bs of [] \<Rightarrow> False | b # _ \<Rightarrow> b \<noteq> 0)"
| "scalar_of_bytes KFloat32 bs = SFloat32 (le_word bs)"
| "scalar_of_bytes KFloat64 bs = SFloat64 (le_word bs)"

text \<open>
  \<^verbatim>\<open>binary.Read(buf, binary.LittleEndian, ptr)\<close> for a pointer to a scalar of kind \<open>k\<close>:
  refused for \<^verbatim>\<open>*int\<close> before anything is read; otherwise \<^verbatim>\<open>io.ReadFull\<close> of the width.
\<close>

definition binary_Read :: "reader \<Rightarrow> kind \<Rightarrow> (error + scalar) \<times> reader" where
  "binary_Read r k =
     (if k = KInt then (Inl InvalidType, r)
      else case ReadFull r (width k) of
          (Inl e, r') \<Rightarrow> (Inl e, r')
        | (Inr bs, r') \<Rightarrow> (Inr (scalar_of_bytes k bs), r'))"

section \<open>Length tags\<close>

text \<open>
  \<^verbatim>\<open>strconv.ParseUint(s, 10, 32)\<close>: a non-empty string of decimal digits (no sign, no
  underscore) whose value fits in 32 bits.
\<close>

definition is_digit :: "char \<Rightarrow> bool" where
  "is_digit c = (48 \<le> (of_char c :: nat) \<and> (of_char c :: nat) \<le> 57)"

definition ParseUint :: "string \<Rightarrow> 32 word option" where
  "ParseUint s =
     (if s = [] \<or> \<not> list_all is_digit s then None
      else let n = foldl (\<lambda>acc c. 10 * acc + ((of_char c :: nat) - 48)) 0 s
           in if n < 2 ^ 32 then Some (of_nat n) else None)"

definition parseTag :: "string \<Rightarrow> error + 32 word" where
  "parseTag tag =
     (if tag = [] then Inl EmptyTag
      else if tag = ''-'' then Inl IgnoreTag
      else case ParseUint tag of
          Some n \<Rightarrow> Inr n
        | None \<Rightarrow>
            (if take 4 tag = ''len:'' \<and> CHR '':'' \<notin> set (drop 4 tag)
             then (case ParseUint (drop 4 tag) of
                     Some n \<Rightarrow> Inr n
                   | None \<Rightarrow> Inl (InvalidTag tag))
             else Inl (InvalidTag tag)))"

section \<open>Strings and byte sequences\<close>

text \<open>
  \<^verbatim>\<open>encodeString(s, buf, tag)\<close>.  With a tag that parses, the payload is cut to the tag's
  length (\<^verbatim>\<open>data[:length]\<close>) or copied into \<^verbatim>\<open>make([]byte, length)\<close>, the comparisons being made
  on \<^verbatim>\<open>uint32(len(data))\<close>; otherwise the length prefix and the payload.  Writing to a
  \<^verbatim>\<open>bytes.Buffer\<close> cannot fail, so the result is the bytes appended.
\<close>

definition encodeString :: "byte list \<Rightarrow> string \<Rightarrow> byte list" where
  "encodeString s tag =
     (case (if tag \<noteq> [] then parseTag tag else Inl EmptyTag) of
        Inr len \<Rightarrow>
          (if (of_nat (length s) :: 32 word) > len then take (unat len) s
           else if (of_nat (length s) :: 32 word) < len
                then take (unat len) s @ replicate (unat len - length s) 0
           else s)
      | Inl _ \<Rightarrow> Write_uint32 (of_nat (length s)) @ s)"

text \<open>\<^verbatim>\<open>encodeBytes(b, buf, tag)\<close> has the same body.\<close>

definition encodeBytes :: "byte list \<Rightarrow> string \<Rightarrow> byte list" where
  "encodeBytes b tag =
     (case (if tag \<noteq> [] then parseTag tag else Inl EmptyTag) of
        Inr len \<Rightarrow>
          (if (of_nat (length b) :: 32 word) > len then take (unat len) b
           else if (of_nat (length b) :: 32 word) < len
                then take (unat len) b @ replicate (unat len - length b) 0
           else b)
      | Inl _ \<Rightarrow> Write_uint32 (of_nat (length b)) @ b)"

text \<open>\<^verbatim>\<open>bytes.TrimRight(data, "\x00")\<close>.\<close>

definition TrimRight0 :: "byte list \<Rightarrow> byte list" where
  "TrimRight0 data = rev (dropWhile (\<lambda>b. b = 0) (rev data))"

text \<open>
  The reads shared by \<^verbatim>\<open>decodeString\<close>, \<^verbatim>\<open>decodeBytes\<close> and \<^verbatim>\<open>decodeByteArray\<close>:
  with a tag that parses, \<^verbatim>\<open>make([]byte, length)\<close> and one \<^verbatim>\<open>buf.Read(data)\<close>; otherwise
  the \<^verbatim>\<open>uint32\<close> prefix by \<^verbatim>\<open>binary.Read\<close>, then the same.  The flag tells which branch ran
  (\<^verbatim>\<open>decodeString\<close> trims only on the tagged one).
\<close>

definition read_payload :: "reader \<Rightarrow> string \<Rightarrow> (error + (bool \<times> byte list)) \<times> reader" where
  "read_payload r tag =
     (case (if tag \<noteq> [] then parseTag tag else Inl EmptyTag) of
        Inr len \<Rightarrow>
          (case Reader_Read r (unat len) of
             (Some e, data, r') \<Rightarrow> (Inl e, r')
           | (None, data, r') \<Rightarrow> (Inr (True, data), r'))
      | Inl _ \<Rightarrow>
          (case Read_uint32 r of
             (Inl e, r') \<Rightarrow> (Inl e, r')
           | (Inr len, r') \<Rightarrow>
               (case Reader_Read r' (unat len) of
                  (Some e, data, r'') \<Rightarrow> (Inl e, r'')
                | (None, data, r'') \<Rightarrow> (Inr (False, data), r''))))"

text \<open>
  \<^verbatim>\<open>decodeString(buf, field, tag)\<close>: the second argument is the string the field holds, the
  second result the string it holds afterwards (unchanged on an error).
\<close>

definition decodeString :: "reader \<Rightarrow> byte list \<Rightarrow> string \<Rightarrow> error option \<times> byte list \<times> reader" where
  "decodeString r field tag =
     (case read_payload r tag of
        (Inl e, r') \<Rightarrow> (Some e, field, r')
      | (Inr (tagged, data), r') \<Rightarrow>
          (None, if tagged then TrimRight0 data else data, r'))"

section \<open>Values, types and the store\<close>

text \<open>
  Values as \<^verbatim>\<open>reflect.Value\<close> shows them to the codec.  A \<^verbatim>\<open>reflect.StructField\<close> is reduced
  to what the codec reads of it: the name (for error messages), whether the field is
  exported (the answer of \<^verbatim>\<open>CanInterface\<close> when encoding and of \<^verbatim>\<open>CanSet\<close> when decoding) and
  the value of the \<^verbatim>\<open>binary\<close> key of its tag.
\<close>

datatype StructField = StructField (sf_name: string) (sf_exported: bool) (sf_tag: string)

text \<open>
  Types by kind.  \<open>TOther\<close> stands for every kind that neither \<^verbatim>\<open>switch\<close> names (channels,
  functions, maps, interfaces, \<^verbatim>\<open>uint\<close>, complex numbers, the invalid value of a nil
  interface).  Types are finite trees: a named type that refers to itself (a struct with a
  pointer to its own type) has no representation here, and so neither has a value whose
  pointers form a cycle.
\<close>

datatype ty =
    TScalar kind | TString | TSlice ty | TArray nat ty
  | TStruct "(StructField \<times> ty) list" | TPtr ty | TOther

text \<open>
  A string is its bytes; a slice is nil or has elements, and knows its element type; an
  array has as many elements as its type says; a struct is its fields in declaration
  order.  A pointer is nil (and knows its pointee type) or refers to a variable, and the
  decoder writes through the pointers it finds in its target (\<^verbatim>\<open>decodeField(buf, field.Elem(),
  tag)\<close>), so it matters whether two of them refer to the same variable:

    \<^item> \<open>VPtr x\<close> is a pointer to a variable that nothing else refers to, \<open>x\<close> being what the
      variable holds: the variable \<^verbatim>\<open>reflect.New\<close> has just made, or one of the caller's
      that is reached through this pointer alone;

    \<^item> \<open>VRef T a\<close> is a pointer to the variable of type \<open>T\<close> at the address \<open>a\<close> of the store,
      which other pointers may refer to as well: what is written through one of them is
      read through the others.

  The store holds the variables that are referred to in the second way.  A pointer into
  the middle of another variable (to a field, to an array element) is not represented.
\<close>

datatype val =
    VScalar scalar | VString "byte list"
  | VNilSlice ty | VSlice ty "val list" | VArray ty "val list"
  | VStruct "(StructField \<times> val) list"
  | VNilPtr ty | VPtr val | VRef ty nat | VOther

type_synonym store = "nat \<Rightarrow> val option"

text \<open>
  The zero value of a type: \<^verbatim>\<open>reflect.Zero(T)\<close>, \<^verbatim>\<open>reflect.New(T).Elem()\<close> and the elements of
  \<^verbatim>\<open>reflect.MakeSlice\<close>.
\<close>

fun zero :: "ty \<Rightarrow> val" where
  "zero (TScalar k) = VScalar (zero_scalar k)"
| "zero TString = VString []"
| "zero (TSlice T) = VNilSlice T"
| "zero (TArray n T) = VArray T (replicate n (zero T))"
| "zero (TStruct fs) = VStruct (map (\<lambda>ft. (fst ft, zero (snd ft))) fs)"
| "zero (TPtr T) = VNilPtr T"
| "zero TOther = VOther"

text \<open>\<^verbatim>\<open>field.Type()\<close>.\<close>

fun type_of :: "val \<Rightarrow> ty" where
  "type_of (VScalar s) = TScalar (kind_of s)"
| "type_of (VString _) = TString"
| "type_of (VNilSlice T) = TSlice T"
| "type_of (VSlice T _) = TSlice T"
| "type_of (VArray T xs) = TArray (length xs) T"
| "type_of (VStruct fs) = TStruct (map (\<lambda>fv. (fst fv, type_of (snd fv))) fs)"
| "type_of (VNilPtr T) = TPtr T"
| "type_of (VPtr x) = TPtr (type_of x)"
| "type_of (VRef T a) = TPtr T"
| "type_of VOther = TOther"

text \<open>
  Well-typed values: the elements of a slice or array have the element type it declares.
  Go's type system guarantees this of every value the codec can be given.
\<close>

fun wt :: "val \<Rightarrow> bool" where
  "wt (VSlice T xs) = list_all (\<lambda>x. wt x \<and> type_of x = T) xs"
| "wt (VArray T xs) = list_all (\<lambda>x. wt x \<and> type_of x = T) xs"
| "wt (VStruct fs) = list_all (\<lambda>fv. wt (snd fv)) fs"
| "wt (VPtr x) = wt x"
| "wt _ = True"

text \<open>
  \<^verbatim>\<open>field.Elem()\<close> for a pointer \<open>VRef T a\<close>: what the variable at \<open>a\<close> holds.  In a state of a
  Go program a pointer of type \<^verbatim>\<open>*T\<close> refers to a live variable holding a value of type
  \<open>T\<close>; on the other states, which no program reaches, \<open>load\<close> gives the zero value, so
  that it is a total function whose result has the type \<open>T\<close>.
\<close>

definition load :: "store \<Rightarrow> ty \<Rightarrow> nat \<Rightarrow> val" where
  "load \<sigma> T a =
     (case \<sigma> a of
        Some x \<Rightarrow> if wt x \<and> type_of x = T then x else zero T
      | None \<Rightarrow> zero T)"

text \<open>
  The nesting depth of a type and of a value; they serve the termination proofs of the
  encoder and the decoder, which recurse into zero values and into the variables of the
  store as well as into parts of their argument.
\<close>

fun maxd :: "nat list \<Rightarrow> nat" where
  "maxd [] = 0"
| "maxd (n # ns) = max n (maxd ns)"

fun tdepth :: "ty \<Rightarrow> nat" where
  "tdepth (TSlice T) = Suc (tdepth T)"
| "tdepth (TArray n T) = Suc (tdepth T)"
| "tdepth (TPtr T) = Suc (tdepth T)"
| "tdepth (TStruct fs) = Suc (maxd (map (\<lambda>ft. tdepth (snd ft)) fs))"
| "tdepth _ = 0"

fun vdepth :: "val \<Rightarrow> nat" where
  "vdepth (VNilSlice T) = Suc (tdepth T)"
| "vdepth (VSlice T xs) = Suc (max (tdepth T) (maxd (map vdepth xs)))"
| "vdepth (VArray T xs) = Suc (max (tdepth T) (maxd (map vdepth xs)))"
| "vdepth (VStruct fs) = Suc (maxd (map (\<lambda>fv. vdepth (snd fv)) fs))"
| "vdepth (VNilPtr T) = Suc (tdepth T)"
| "vdepth (VPtr x) = Suc (vdepth x)"
| "vdepth (VRef T a) = Suc (tdepth T)"
| "vdepth _ = 0"

text \<open>
  What a value is when its pointers are followed: every pointer into the store replaced by
  a pointer of the first kind to what the variable holds.  Two values with the same
  \<open>deep\<close> are equal in the sense of \<^verbatim>\<open>reflect.DeepEqual\<close>, which is how the package's tests
  compare a decoded value with the original.
\<close>

function (sequential) deep :: "store \<Rightarrow> val \<Rightarrow> val" where
  "deep \<sigma> (VSlice T xs) = VSlice T (map (deep \<sigma>) xs)"
| "deep \<sigma> (VArray T xs) = VArray T (map (deep \<sigma>) xs)"
| "deep \<sigma> (VStruct fs) = VStruct (map (\<lambda>fv. (fst fv, deep \<sigma> (snd fv))) fs)"
| "deep \<sigma> (VPtr x) = VPtr (deep \<sigma> x)"
| "deep \<sigma> (VRef T a) = VPtr (deep \<sigma> (load \<sigma> T a))"
| "deep \<sigma> v = v"
  by pat_completeness auto

termination
proof -
  have maxd_le_iff: "maxd ns \<le> m \<longleftrightarrow> (\<forall>n\<in>set ns. n \<le> m)" for ns m
    by (induction ns) auto
  have maxd_ge: "f x \<le> maxd (map f xs)" if "x \<in> set xs" for f :: "'a \<Rightarrow> nat" and x xs
    using that maxd_le_iff [of "map f xs" "maxd (map f xs)"] by simp
  have maxd_replicate: "maxd (replicate n d) = (if n = 0 then 0 else d)" for n d
    by (induction n) auto
  have vdepth_zero: "vdepth (zero T) = tdepth T" for T
  proof (induction T rule: zero.induct)
    case (4 n T)
    then show ?case by (simp add: maxd_replicate)
  next
    case (5 fs)
    then show ?case by (simp add: comp_def cong: map_cong)
  qed simp_all
  have wt_depth: "wt x \<Longrightarrow> vdepth x = tdepth (type_of x)" for x
  proof (induction x)
    case (VSlice T xs)
    then have "\<forall>n\<in>set (map vdepth xs). n \<le> tdepth T" by (auto simp: list_all_iff)
    then have "maxd (map vdepth xs) \<le> tdepth T" by (simp only: maxd_le_iff)
    then show ?case by simp
  next
    case (VArray T xs)
    then have "\<forall>n\<in>set (map vdepth xs). n \<le> tdepth T" by (auto simp: list_all_iff)
    then have "maxd (map vdepth xs) \<le> tdepth T" by (simp only: maxd_le_iff)
    then show ?case by simp
  next
    case (VStruct fs)
    have "vdepth (snd fv) = tdepth (type_of (snd fv))" if "fv \<in> set fs" for fv
    proof -
      have "snd fv \<in> Basic_BNFs.snds fv" by (cases fv) simp
      with VStruct that show ?thesis by (auto simp: list_all_iff)
    qed
    then have "map (\<lambda>fv. vdepth (snd fv)) fs = map (\<lambda>fv. tdepth (type_of (snd fv))) fs"
      by (intro map_cong) auto
    then have "maxd (map (\<lambda>fv. vdepth (snd fv)) fs)
                 = maxd (map (\<lambda>fv. tdepth (type_of (snd fv))) fs)"
      by (rule arg_cong)
    then show ?case by (simp add: comp_def)
  qed simp_all
  have vdepth_load: "vdepth (load \<sigma> T a) = tdepth T" for \<sigma> T a
    by (auto simp: load_def vdepth_zero wt_depth split: option.splits)
  show ?thesis
    apply (relation "measure (\<lambda>p. vdepth (snd p))")
    apply (auto simp: vdepth_load less_Suc_eq_le intro: maxd_ge le_max_iff_disj [THEN iffD2])
    done
qed

text \<open>
  The methods of the program's types.  \<open>MarshalBinary M v\<close> is \<open>None\<close> when the type
  assertion \<^verbatim>\<open>v.(BinaryMarshaler)\<close> fails and otherwise what \<^verbatim>\<open>v.MarshalBinary()\<close> returns in
  a given store; \<open>UnmarshalBinary M v\<close> is \<open>None\<close> when \<^verbatim>\<open>v.(BinaryUnmarshaler)\<close> fails and
  otherwise the method: from the store and the data to the error it returns, the state of
  \<open>v\<close> afterwards and the store afterwards.  The methods are parameters of every function
  below, so every theorem with a free \<open>M\<close> holds for all programs.
\<close>

record methods =
  MarshalBinary :: "val \<Rightarrow> (store \<Rightarrow> error + byte list) option"
  UnmarshalBinary :: "val \<Rightarrow> (store \<Rightarrow> byte list \<Rightarrow> error option \<times> val \<times> store) option"

text \<open>
  \<^verbatim>\<open>field.Type().Elem().Kind() == reflect.Uint8\<close>; the bytes of a byte slice or array
  (\<^verbatim>\<open>field.Bytes()\<close>, \<^verbatim>\<open>byte(field.Index(i).Uint())\<close>); the elements that \<^verbatim>\<open>SetBytes\<close> and
  \<^verbatim>\<open>SetUint\<close> store.
\<close>

definition is_byte :: "ty \<Rightarrow> bool" where
  "is_byte T = (T = TScalar KUint8)"

definition bytes_of :: "val list \<Rightarrow> byte list" where
  "bytes_of xs = map (\<lambda>v. case v of VScalar (SUint8 b) \<Rightarrow> b | _ \<Rightarrow> 0) xs"

definition byte_vals :: "byte list \<Rightarrow> val list" where
  "byte_vals bs = map (\<lambda>b. VScalar (SUint8 b)) bs"

text \<open>
  What round \<open>i\<close> of a fixed-length loop works on, for \<open>i\<close> from 0 up to the tag's length:
  \<^verbatim>\<open>if i < sliceLen { elem = slice.Index(int(i)) } else { elem = reflect.Zero(elemType) }\<close>
  in \<^verbatim>\<open>encodeSlice\<close> and \<^verbatim>\<open>encodeArray\<close>, and likewise \<^verbatim>\<open>field.Index(int(i))\<close> or a fresh
  \<^verbatim>\<open>reflect.New(arrayType.Elem()).Elem()\<close> in \<^verbatim>\<open>decodeArray\<close>; the length compared with is
  \<^verbatim>\<open>uint32(slice.Len())\<close>.
\<close>

definition fixed_elems :: "ty \<Rightarrow> val list \<Rightarrow> 32 word \<Rightarrow> val list" where
  "fixed_elems T xs len =
     map (\<lambda>i. if i < unat (of_nat (length xs) :: 32 word) then xs ! i else zero T) [0..<unat len]"

section \<open>The encoder\<close>

text \<open>
  \<^verbatim>\<open>encodeField\<close>, \<^verbatim>\<open>encodeStruct\<close>, \<^verbatim>\<open>encodeSlice\<close> and \<^verbatim>\<open>encodeArray\<close>, case by case as in
  the source.  The encoder reads the store and does not change it.  The result is the error
  or the bytes appended to the buffer; \<^verbatim>\<open>Marshal\<close> discards the buffer on an error.
  \<^verbatim>\<open>encodeStruct\<close> takes the fields from the current one on: the rest of its \<^verbatim>\<open>for\<close> loop.
  \<open>encodeElems\<close> is the loop over elements, each round being \<^verbatim>\<open>encodeField(elem, buf, "")\<close> and
  the first error ending it.  \<open>enc_measure\<close> is the measure of the termination proof.
\<close>

definition enc_measure ::
  "((methods \<times> store \<times> val \<times> string) + (methods \<times> store \<times> (StructField \<times> val) list)) +
   ((methods \<times> store \<times> ty \<times> val list \<times> string) +
    ((methods \<times> store \<times> ty \<times> val list \<times> string) + (methods \<times> store \<times> val list)))
   \<Rightarrow> nat \<times> nat \<times> nat" where
  "enc_measure c = (case c of
      Inl (Inl (M, \<sigma>, v, tag)) \<Rightarrow> (2 * vdepth v, 0, 0)
    | Inl (Inr (M, \<sigma>, fs)) \<Rightarrow> (2 * maxd (map (\<lambda>fv. vdepth (snd fv)) fs) + 1, 0, length fs)
    | Inr (Inl (M, \<sigma>, T, xs, tag)) \<Rightarrow> (2 * max (tdepth T) (maxd (map vdepth xs)) + 1, 1, 0)
    | Inr (Inr (Inl (M, \<sigma>, T, xs, tag))) \<Rightarrow> (2 * max (tdepth T) (maxd (map vdepth xs)) + 1, 1, 0)
    | Inr (Inr (Inr (M, \<sigma>, xs))) \<Rightarrow> (2 * maxd (map vdepth xs) + 1, 0, length xs))"

function (sequential)
    encodeField :: "methods \<Rightarrow> store \<Rightarrow> val \<Rightarrow> string \<Rightarrow> error + byte list"
and encodeStruct :: "methods \<Rightarrow> store \<Rightarrow> (StructField \<times> val) list \<Rightarrow> error + byte list"
and encodeSlice :: "methods \<Rightarrow> store \<Rightarrow> ty \<Rightarrow> val list \<Rightarrow> string \<Rightarrow> error + byte list"
and encodeArray :: "methods \<Rightarrow> store \<Rightarrow> ty \<Rightarrow> val list \<Rightarrow> string \<Rightarrow> error + byte list"
and encodeElems :: "methods \<Rightarrow> store \<Rightarrow> val list \<Rightarrow> error + byte list"
where
  "encodeField M \<sigma> (VNilPtr T) tag = Inl NilPointer"
| "encodeField M \<sigma> (VPtr x) tag = encodeField M \<sigma> x tag"
| "encodeField M \<sigma> (VRef T a) tag = encodeField M \<sigma> (load \<sigma> T a) tag"
| "encodeField M \<sigma> (VScalar s) tag = binary_Write s"
| "encodeField M \<sigma> (VString s) tag = Inr (encodeString s tag)"
| "encodeField M \<sigma> (VNilSlice T) tag =
     (if is_byte T then Inr (encodeBytes [] tag) else encodeSlice M \<sigma> T [] tag)"
| "encodeField M \<sigma> (VSlice T xs) tag =
     (if is_byte T then Inr (encodeBytes (bytes_of xs) tag) else encodeSlice M \<sigma> T xs tag)"
| "encodeField M \<sigma> (VArray T xs) tag =
     (if is_byte T then Inr (encodeBytes (bytes_of xs) tag) else encodeArray M \<sigma> T xs tag)"
| "encodeField M \<sigma> (VStruct fs) tag = encodeStruct M \<sigma> fs"
| "encodeField M \<sigma> VOther tag = Inl UnsupportedType"
| "encodeStruct M \<sigma> [] = Inr []"
| "encodeStruct M \<sigma> ((f, v) # rest) =
     (if \<not> sf_exported f then encodeStruct M \<sigma> rest
      else case MarshalBinary M v of
        Some marshal \<Rightarrow>
          (case marshal \<sigma> of
             Inl e \<Rightarrow> Inl (Wrapped (''error marshaling field '' @ sf_name f) e)
           | Inr fieldData \<Rightarrow>
               (case encodeStruct M \<sigma> rest of
                  Inl e \<Rightarrow> Inl e
                | Inr out \<Rightarrow> Inr (Write_uint32 (of_nat (length fieldData)) @ fieldData @ out)))
      | None \<Rightarrow>
          (if sf_tag f = ''-'' then encodeStruct M \<sigma> rest
           else case encodeField M \<sigma> v (sf_tag f) of
             Inl e \<Rightarrow> Inl (Wrapped (''error encoding field '' @ sf_name f) e)
           | Inr out1 \<Rightarrow>
               (case encodeStruct M \<sigma> rest of
                  Inl e \<Rightarrow> Inl e
                | Inr out \<Rightarrow> Inr (out1 @ out))))"
| "encodeSlice M \<sigma> T xs tag =
     (case (if tag \<noteq> [] then parseTag tag else Inl EmptyTag) of
        Inr len \<Rightarrow> encodeElems M \<sigma> (fixed_elems T xs len)
      | Inl _ \<Rightarrow>
          (case encodeElems M \<sigma> (take (unat (of_nat (length xs) :: 32 word)) xs) of
             Inl e \<Rightarrow> Inl e
           | Inr out \<Rightarrow> Inr (Write_uint32 (of_nat (length xs)) @ out)))"
| "encodeArray M \<sigma> T xs tag =
     (case (if tag \<noteq> [] then parseTag tag else Inl EmptyTag) of
        Inr len \<Rightarrow> encodeElems M \<sigma> (fixed_elems T xs len)
      | Inl _ \<Rightarrow>
          (case encodeElems M \<sigma> (take (unat (of_nat (length xs) :: 32 word)) xs) of
             Inl e \<Rightarrow> Inl e
           | Inr out \<Rightarrow> Inr (Write_uint32 (of_nat (length xs)) @ out)))"
| "encodeElems M \<sigma> [] = Inr []"
| "encodeElems M \<sigma> (x # xs) =
     (case encodeField M \<sigma> x [] of
        Inl e \<Rightarrow> Inl e
      | Inr out1 \<Rightarrow>
          (case encodeElems M \<sigma> xs of
             Inl e \<Rightarrow> Inl e
           | Inr out \<Rightarrow> Inr (out1 @ out)))"
  by pat_completeness auto

termination
proof -
  have maxd_le_iff: "maxd ns \<le> m \<longleftrightarrow> (\<forall>n\<in>set ns. n \<le> m)" for ns m
    by (induction ns) auto
  have maxd_ge: "f x \<le> maxd (map f xs)" if "x \<in> set xs" for f :: "val \<Rightarrow> nat" and x xs
    using that maxd_le_iff [of "map f xs" "maxd (map f xs)"] by simp
  have maxd_replicate: "maxd (replicate n d) = (if n = 0 then 0 else d)" for n d
    by (induction n) auto
  have vdepth_zero: "vdepth (zero T) = tdepth T" for T
  proof (induction T rule: zero.induct)
    case (4 n T)
    then show ?case by (simp add: maxd_replicate)
  next
    case (5 fs)
    then show ?case by (simp add: comp_def cong: map_cong)
  qed simp_all
  have wt_depth: "wt x \<Longrightarrow> vdepth x = tdepth (type_of x)" for x
  proof (induction x)
    case (VSlice T xs)
    then have "\<forall>n\<in>set (map vdepth xs). n \<le> tdepth T" by (auto simp: list_all_iff)
    then have "maxd (map vdepth xs) \<le> tdepth T" by (simp only: maxd_le_iff)
    then show ?case by simp
  next
    case (VArray T xs)
    then have "\<forall>n\<in>set (map vdepth xs). n \<le> tdepth T" by (auto simp: list_all_iff)
    then have "maxd (map vdepth xs) \<le> tdepth T" by (simp only: maxd_le_iff)
    then show ?case by simp
  next
    case (VStruct fs)
    have "vdepth (snd fv) = tdepth (type_of (snd fv))" if "fv \<in> set fs" for fv
    proof -
      have "snd fv \<in> Basic_BNFs.snds fv" by (cases fv) simp
      with VStruct that show ?thesis by (auto simp: list_all_iff)
    qed
    then have "map (\<lambda>fv. vdepth (snd fv)) fs = map (\<lambda>fv. tdepth (type_of (snd fv))) fs"
      by (intro map_cong) auto
    then have "maxd (map (\<lambda>fv. vdepth (snd fv)) fs)
                 = maxd (map (\<lambda>fv. tdepth (type_of (snd fv))) fs)"
      by (rule arg_cong)
    then show ?case by (simp add: comp_def)
  qed simp_all
  have vdepth_load: "vdepth (load \<sigma> T a) = tdepth T" for \<sigma> T a
    by (auto simp: load_def vdepth_zero wt_depth split: option.splits)
  have fixed: "maxd (map vdepth (fixed_elems T xs len)) < max (tdepth T) (maxd (map vdepth xs)) \<or>
               maxd (map vdepth (fixed_elems T xs len)) = max (tdepth T) (maxd (map vdepth xs))"
    for T xs len
  proof -
    have len: "unat (of_nat (length xs) :: 32 word) \<le> length xs"
      by (simp add: unat_of_nat)
    have "vdepth x \<le> max (tdepth T) (maxd (map vdepth xs))"
      if "x \<in> set (fixed_elems T xs len)" for x
    proof -
      from that consider "x = zero T"
        | i where "i < unat (of_nat (length xs) :: 32 word)" "x = xs ! i"
        by (auto simp: fixed_elems_def split: if_splits)
      then show ?thesis
      proof cases
        case 1
        then show ?thesis by (simp add: vdepth_zero)
      next
        case 2
        with len have "xs ! i \<in> set xs" by simp
        then have "vdepth (xs ! i) \<le> maxd (map vdepth xs)" by (rule maxd_ge)
        with 2 show ?thesis by simp
      qed
    qed
    then have "maxd (map vdepth (fixed_elems T xs len)) \<le> max (tdepth T) (maxd (map vdepth xs))"
      by (simp add: maxd_le_iff)
    then show ?thesis by auto
  qed
  have taken: "maxd (map vdepth (take k xs)) < max (tdepth T) (maxd (map vdepth xs)) \<or>
               maxd (map vdepth (take k xs)) = max (tdepth T) (maxd (map vdepth xs))"
    for k xs T
  proof -
    have "maxd (map vdepth (take k xs)) \<le> maxd (map vdepth xs)"
      by (auto simp: maxd_le_iff dest: in_set_takeD intro: maxd_ge)
    then show ?thesis by auto
  qed
  show ?thesis
    apply (relation "inv_image (less_than <*lex*> less_than <*lex*> less_than) enc_measure")
    apply (intro wf_inv_image wf_lex_prod wf_less_than)
    apply (simp_all add: enc_measure_def fixed taken vdepth_load)
    apply (simp_all add: max_def)
    done
qed

section \<open>The decoder\<close>

text \<open>
  The element count of \<^verbatim>\<open>decodeSlice\<close> and \<^verbatim>\<open>decodeArray\<close>: the tag's length if the tag is
  not empty and parses, otherwise the \<^verbatim>\<open>uint32\<close> read from the input.
\<close>

definition read_count :: "reader \<Rightarrow> string \<Rightarrow> (error + 32 word) \<times> reader" where
  "read_count r tag =
     (case (if tag \<noteq> [] then parseTag tag else Inl EmptyTag) of
        Inr len \<Rightarrow> (Inr len, r)
      | Inl _ \<Rightarrow> Read_uint32 r)"

text \<open>
  \<^verbatim>\<open>decodeBytes\<close> and \<^verbatim>\<open>decodeByteArray\<close>.  The array keeps its length: the first
  \<open>copyLen\<close> bytes of the data, then zeros.
\<close>

definition decodeBytes :: "reader \<Rightarrow> ty \<Rightarrow> val \<Rightarrow> string \<Rightarrow> error option \<times> val \<times> reader" where
  "decodeBytes r T field tag =
     (case read_payload r tag of
        (Inl e, r') \<Rightarrow> (Some e, field, r')
      | (Inr (tagged, data), r') \<Rightarrow> (None, VSlice T (byte_vals data), r'))"

definition decodeByteArray :: "reader \<Rightarrow> val list \<Rightarrow> string \<Rightarrow> error option \<times> val list \<times> reader" where
  "decodeByteArray r xs tag =
     (case read_payload r tag of
        (Inl e, r') \<Rightarrow> (Some e, xs, r')
      | (Inr (tagged, data), r') \<Rightarrow>
          (let arrayLen = length xs;
               copyLen = (if length data > arrayLen then arrayLen else length data)
           in (None, byte_vals (take copyLen data) @ replicate (arrayLen - copyLen) (VScalar (SUint8 0)) , r')))"

text \<open>
  \<^verbatim>\<open>fieldPtr.Elem()\<close> after the call of \<^verbatim>\<open>UnmarshalBinary\<close> on \<^verbatim>\<open>fieldPtr\<close>, and
  \<^verbatim>\<open>field.Kind() == reflect.Struct\<close>.
\<close>

definition pointee :: "val \<Rightarrow> val \<Rightarrow> val" where
  "pointee p old = (case p of VPtr x \<Rightarrow> x | _ \<Rightarrow> old)"

fun is_struct :: "val \<Rightarrow> bool" where
  "is_struct (VStruct _) = True"
| "is_struct _ = False"

text \<open>
  \<^verbatim>\<open>decodeField\<close>, \<^verbatim>\<open>decodeStruct\<close>, \<^verbatim>\<open>decodeSlice\<close> and \<^verbatim>\<open>decodeArray\<close>.  Each takes the
  store, the reader and the value its target holds and returns the error, the value the
  target holds afterwards (a decode that fails half-way leaves what it has written), the
  store afterwards and the reader afterwards.  On a nil pointer a variable is allocated and
  the pointer set to it; on a pointer that is not nil the variable it refers to is decoded
  in place: for a pointer into the store, what the variable holds is taken from the store,
  decoded, and put back.  (Types being finite, a variable is never reached again while
  it is being decoded.)  \<open>decodeElems\<close> is the loop over targets, each round being
  \<^verbatim>\<open>decodeField(buf, elem, "")\<close>.  A slice is decoded into fresh zero elements and assigned
  only when every element succeeded; an array is decoded in place.  A length prefix so
  large that \<^verbatim>\<open>make\<close> or \<^verbatim>\<open>reflect.MakeSlice\<close> cannot allocate is outside the model.
  \<open>dec_measure\<close> is the measure of the termination proof.
\<close>

definition dec_measure ::
  "((methods \<times> store \<times> reader \<times> val \<times> string) +
    (methods \<times> store \<times> reader \<times> (StructField \<times> val) list)) +
   ((methods \<times> store \<times> reader \<times> ty \<times> val \<times> string) +
    ((methods \<times> store \<times> reader \<times> ty \<times> val list \<times> string) +
     (methods \<times> store \<times> reader \<times> val list)))
   \<Rightarrow> nat \<times> nat \<times> nat" where
  "dec_measure c = (case c of
      Inl (Inl (M, \<sigma>, r, v, tag)) \<Rightarrow> (2 * vdepth v, 0, 0)
    | Inl (Inr (M, \<sigma>, r, fs)) \<Rightarrow> (2 * maxd (map (\<lambda>fv. vdepth (snd fv)) fs) + 1, 0, length fs)
    | Inr (Inl (M, \<sigma>, r, T, field, tag)) \<Rightarrow> (2 * tdepth T + 1, 1, 0)
    | Inr (Inr (Inl (M, \<sigma>, r, T, xs, tag))) \<Rightarrow> (2 * max (tdepth T) (maxd (map vdepth xs)) + 1, 1, 0)
    | Inr (Inr (Inr (M, \<sigma>, r, xs))) \<Rightarrow> (2 * maxd (map vdepth xs) + 1, 0, length xs))"

function (sequential)
    decodeField :: "methods \<Rightarrow> store \<Rightarrow> reader \<Rightarrow> val \<Rightarrow> string
                      \<Rightarrow> error option \<times> val \<times> store \<times> reader"
and decodeStruct :: "methods \<Rightarrow> store \<Rightarrow> reader \<Rightarrow> (StructField \<times> val) list
                      \<Rightarrow> error option \<times> (StructField \<times> val) list \<times> store \<times> reader"
and decodeSlice :: "methods \<Rightarrow> store \<Rightarrow> reader \<Rightarrow> ty \<Rightarrow> val \<Rightarrow> string
                      \<Rightarrow> error option \<times> val \<times> store \<times> reader"
and decodeArray :: "methods \<Rightarrow> store \<Rightarrow> reader \<Rightarrow> ty \<Rightarrow> val list \<Rightarrow> string
                      \<Rightarrow> error option \<times> val list \<times> store \<times> reader"
and decodeElems :: "methods \<Rightarrow> store \<Rightarrow> reader \<Rightarrow> val list
                      \<Rightarrow> error option \<times> val list \<times> store \<times> reader"
where
  "decodeField M \<sigma> r (VNilPtr T) tag =
     (case decodeField M \<sigma> r (zero T) tag of (e, x', \<sigma>', r') \<Rightarrow> (e, VPtr x', \<sigma>', r'))"
| "decodeField M \<sigma> r (VPtr x) tag =
     (case decodeField M \<sigma> r x tag of (e, x', \<sigma>', r') \<Rightarrow> (e, VPtr x', \<sigma>', r'))"
| "decodeField M \<sigma> r (VRef T a) tag =
     (case decodeField M \<sigma> r (load \<sigma> T a) tag of
        (e, x', \<sigma>', r') \<Rightarrow> (e, VRef T a, \<sigma>'(a \<mapsto> x'), r'))"
| "decodeField M \<sigma> r (VScalar s) tag =
     (if kind_of s = KBool then (Some UnsupportedType, VScalar s, \<sigma>, r)
      else case binary_Read r (kind_of s) of
          (Inl e, r') \<Rightarrow> (Some e, VScalar s, \<sigma>, r')
        | (Inr s', r') \<Rightarrow> (None, VScalar s', \<sigma>, r'))"
| "decodeField M \<sigma> r (VString s) tag =
     (case decodeString r s tag of (e, s', r') \<Rightarrow> (e, VString s', \<sigma>, r'))"
| "decodeField M \<sigma> r (VNilSlice T) tag =
     (if is_byte T
      then (case decodeBytes r T (VNilSlice T) tag of (e, v', r') \<Rightarrow> (e, v', \<sigma>, r'))
      else decodeSlice M \<sigma> r T (VNilSlice T) tag)"
| "decodeField M \<sigma> r (VSlice T xs) tag =
     (if is_byte T
      then (case decodeBytes r T (VSlice T xs) tag of (e, v', r') \<Rightarrow> (e, v', \<sigma>, r'))
      else decodeSlice M \<sigma> r T (VSlice T xs) tag)"
| "decodeField M \<sigma> r (VArray T xs) tag =
     (if is_byte T
      then (case decodeByteArray r xs tag of (e, xs', r') \<Rightarrow> (e, VArray T xs', \<sigma>, r'))
      else (case decodeArray M \<sigma> r T xs tag of
              (e, xs', \<sigma>', r') \<Rightarrow> (e, VArray T xs', \<sigma>', r')))"
| "decodeField M \<sigma> r (VStruct fs) tag =
     (case decodeStruct M \<sigma> r fs of (e, fs', \<sigma>', r') \<Rightarrow> (e, VStruct fs', \<sigma>', r'))"
| "decodeField M \<sigma> r VOther tag = (Some UnsupportedType, VOther, \<sigma>, r)"
| "decodeStruct M \<sigma> r [] = (None, [], \<sigma>, r)"
| "decodeStruct M \<sigma> r ((f, v) # rest) =
     (if \<not> sf_exported f
      then (case decodeStruct M \<sigma> r rest of
              (e, rest', \<sigma>', r') \<Rightarrow> (e, (f, v) # rest', \<sigma>', r'))
      else case (if is_struct v then UnmarshalBinary M (VPtr v) else None) of
        Some unmarshal \<Rightarrow>
          (case Read_uint32 r of
             (Inl e, r1) \<Rightarrow> (Some e, (f, v) # rest, \<sigma>, r1)
           | (Inr len, r1) \<Rightarrow>
               (case Reader_Read r1 (unat len) of
                  (Some e, data, r2) \<Rightarrow> (Some e, (f, v) # rest, \<sigma>, r2)
                | (None, data, r2) \<Rightarrow>
                    (case unmarshal \<sigma> data of
                       (Some e, p, \<sigma>1) \<Rightarrow>
                         (Some (Wrapped (''error unmarshaling field '' @ sf_name f) e),
                          (f, v) # rest, \<sigma>1, r2)
                     | (None, p, \<sigma>1) \<Rightarrow>
                         (case decodeStruct M \<sigma>1 r2 rest of
                            (e, rest', \<sigma>2, r3) \<Rightarrow> (e, (f, pointee p v) # rest', \<sigma>2, r3)))))
      | None \<Rightarrow>
          (if sf_tag f = ''-''
           then (case decodeStruct M \<sigma> r rest of
                   (e, rest', \<sigma>', r') \<Rightarrow> (e, (f, v) # rest', \<sigma>', r'))
           else case decodeField M \<sigma> r v (sf_tag f) of
               (Some e, v', \<sigma>1, r1) \<Rightarrow>
                 (Some (Wrapped (''error decoding field '' @ sf_name f) e), (f, v') # rest,
                  \<sigma>1, r1)
             | (None, v', \<sigma>1, r1) \<Rightarrow>
                 (case decodeStruct M \<sigma>1 r1 rest of
                    (e, rest', \<sigma>2, r2) \<Rightarrow> (e, (f, v') # rest', \<sigma>2, r2))))"
| "decodeSlice M \<sigma> r T field tag =
     (case read_count r tag of
        (Inl e, r1) \<Rightarrow> (Some e, field, \<sigma>, r1)
      | (Inr len, r1) \<Rightarrow>
          (case decodeElems M \<sigma> r1 (replicate (unat len) (zero T)) of
             (Some e, newSlice, \<sigma>', r2) \<Rightarrow> (Some e, field, \<sigma>', r2)
           | (None, newSlice, \<sigma>', r2) \<Rightarrow> (None, VSlice T newSlice, \<sigma>', r2)))"
| "decodeArray M \<sigma> r T xs tag =
     (case read_count r tag of
        (Inl e, r1) \<Rightarrow> (Some e, xs, \<sigma>, r1)
      | (Inr len, r1) \<Rightarrow>
          (let arrayLen = unat (of_nat (length xs) :: 32 word) in
           case decodeElems M \<sigma> r1 (fixed_elems T xs len) of
             (Some e, ys, \<sigma>', r2) \<Rightarrow>
               (Some e, take arrayLen ys @ drop (min (unat len) arrayLen) xs, \<sigma>', r2)
           | (None, ys, \<sigma>', r2) \<Rightarrow>
               (None, take arrayLen ys @ replicate (arrayLen - unat len) (zero T)
                        @ drop arrayLen xs, \<sigma>', r2)))"
| "decodeElems M \<sigma> r [] = (None, [], \<sigma>, r)"
| "decodeElems M \<sigma> r (x # xs) =
     (case decodeField M \<sigma> r x [] of
        (Some e, x', \<sigma>1, r1) \<Rightarrow> (Some e, x' # xs, \<sigma>1, r1)
      | (None, x', \<sigma>1, r1) \<Rightarrow>
          (case decodeElems M \<sigma>1 r1 xs of (e, xs', \<sigma>2, r2) \<Rightarrow> (e, x' # xs', \<sigma>2, r2)))"
  by pat_completeness auto

termination
proof -
  have maxd_le_iff: "maxd ns \<le> m \<longleftrightarrow> (\<forall>n\<in>set ns. n \<le> m)" for ns m
    by (induction ns) auto
  have maxd_ge: "f x \<le> maxd (map f xs)" if "x \<in> set xs" for f :: "val \<Rightarrow> nat" and x xs
    using that maxd_le_iff [of "map f xs" "maxd (map f xs)"] by simp
  have maxd_replicate: "maxd (replicate n d) = (if n = 0 then 0 else d)" for n d
    by (induction n) auto
  have vdepth_zero: "vdepth (zero T) = tdepth T" for T
  proof (induction T rule: zero.induct)
    case (4 n T)
    then show ?case by (simp add: maxd_replicate)
  next
    case (5 fs)
    then show ?case by (simp add: comp_def cong: map_cong)
  qed simp_all
  have wt_depth: "wt x \<Longrightarrow> vdepth x = tdepth (type_of x)" for x
  proof (induction x)
    case (VSlice T xs)
    then have "\<forall>n\<in>set (map vdepth xs). n \<le> tdepth T" by (auto simp: list_all_iff)
    then have "maxd (map vdepth xs) \<le> tdepth T" by (simp only: maxd_le_iff)
    then show ?case by simp
  next
    case (VArray T xs)
    then have "\<forall>n\<in>set (map vdepth xs). n \<le> tdepth T" by (auto simp: list_all_iff)
    then have "maxd (map vdepth xs) \<le> tdepth T" by (simp only: maxd_le_iff)
    then show ?case by simp
  next
    case (VStruct fs)
    have "vdepth (snd fv) = tdepth (type_of (snd fv))" if "fv \<in> set fs" for fv
    proof -
      have "snd fv \<in> Basic_BNFs.snds fv" by (cases fv) simp
      with VStruct that show ?thesis by (auto simp: list_all_iff)
    qed
    then have "map (\<lambda>fv. vdepth (snd fv)) fs = map (\<lambda>fv. tdepth (type_of (snd fv))) fs"
      by (intro map_cong) auto
    then have "maxd (map (\<lambda>fv. vdepth (snd fv)) fs)
                 = maxd (map (\<lambda>fv. tdepth (type_of (snd fv))) fs)"
      by (rule arg_cong)
    then show ?case by (simp add: comp_def)
  qed simp_all
  have vdepth_load: "vdepth (load \<sigma> T a) = tdepth T" for \<sigma> T a
    by (auto simp: load_def vdepth_zero wt_depth split: option.splits)
  have fixed: "maxd (map vdepth (fixed_elems T xs len)) < max (tdepth T) (maxd (map vdepth xs)) \<or>
               maxd (map vdepth (fixed_elems T xs len)) = max (tdepth T) (maxd (map vdepth xs))"
    for T xs len
  proof -
    have len: "unat (of_nat (length xs) :: 32 word) \<le> length xs"
      by (simp add: unat_of_nat)
    have "vdepth x \<le> max (tdepth T) (maxd (map vdepth xs))"
      if "x \<in> set (fixed_elems T xs len)" for x
    proof -
      from that consider "x = zero T"
        | i where "i < unat (of_nat (length xs) :: 32 word)" "x = xs ! i"
        by (auto simp: fixed_elems_def split: if_splits)
      then show ?thesis
      proof cases
        case 1
        then show ?thesis by (simp add: vdepth_zero)
      next
        case 2
        with len have "xs ! i \<in> set xs" by simp
        then have "vdepth (xs ! i) \<le> maxd (map vdepth xs)" by (rule maxd_ge)
        with 2 show ?thesis by simp
      qed
    qed
    then have "maxd (map vdepth (fixed_elems T xs len)) \<le> max (tdepth T) (maxd (map vdepth xs))"
      by (simp add: maxd_le_iff)
    then show ?thesis by auto
  qed
  have taken: "maxd (map vdepth (take k xs)) < max (tdepth T) (maxd (map vdepth xs)) \<or>
               maxd (map vdepth (take k xs)) = max (tdepth T) (maxd (map vdepth xs))"
    for k xs T
  proof -
    have "maxd (map vdepth (take k xs)) \<le> maxd (map vdepth xs)"
      by (auto simp: maxd_le_iff dest: in_set_takeD intro: maxd_ge)
    then show ?thesis by auto
  qed
  show ?thesis
    apply (relation "inv_image (less_than <*lex*> less_than <*lex*> less_than) dec_measure")
    apply (intro wf_inv_image wf_lex_prod wf_less_than)
    apply (simp_all add: dec_measure_def fixed taken vdepth_zero maxd_replicate vdepth_load)
    apply (auto simp add: max_def)
    done
qed

section \<open>The public operations\<close>

text \<open>
  \<^verbatim>\<open>Marshal(v)\<close>: the type assertion \<^verbatim>\<open>v.(BinaryMarshaler)\<close> first, then \<^verbatim>\<open>encodeField\<close> with
  the empty tag.
\<close>

definition Marshal :: "methods \<Rightarrow> store \<Rightarrow> val \<Rightarrow> error + byte list" where
  "Marshal M \<sigma> v =
     (case MarshalBinary M v of
        Some marshal \<Rightarrow> marshal \<sigma>
      | None \<Rightarrow>
          (case encodeField M \<sigma> v [] of
             Inl e \<Rightarrow> Inl (Wrapped ''error marshaling value'' e)
           | Inr out \<Rightarrow> Inr out))"

text \<open>
  \<^verbatim>\<open>UnmarshalPartial(data, v)\<close>: the results are the count of remaining bytes, the error,
  the state of the target \<open>v\<close> afterwards and the store afterwards.
\<close>

definition UnmarshalPartial ::
  "methods \<Rightarrow> store \<Rightarrow> byte list \<Rightarrow> val \<Rightarrow> nat \<times> error option \<times> val \<times> store" where
  "UnmarshalPartial M \<sigma> data v =
     (case UnmarshalBinary M v of
        Some unmarshal \<Rightarrow> (case unmarshal \<sigma> data of (e, v', \<sigma>') \<Rightarrow> (0, e, v', \<sigma>'))
      | None \<Rightarrow>
          (case v of
             VPtr elem \<Rightarrow>
               (case decodeField M \<sigma> data elem [] of
                  (Some e, elem', \<sigma>', r) \<Rightarrow>
                    (length r, Some (Wrapped ''error unmarshaling value'' e), VPtr elem', \<sigma>')
                | (None, elem', \<sigma>', r) \<Rightarrow> (length r, None, VPtr elem', \<sigma>'))
           | VRef T a \<Rightarrow>
               (case decodeField M \<sigma> data (load \<sigma> T a) [] of
                  (Some e, elem', \<sigma>', r) \<Rightarrow>
                    (length r, Some (Wrapped ''error unmarshaling value'' e), VRef T a,
                     \<sigma>'(a \<mapsto> elem'))
                | (None, elem', \<sigma>', r) \<Rightarrow> (length r, None, VRef T a, \<sigma>'(a \<mapsto> elem')))
           | VNilPtr T \<Rightarrow> (length data, Some NilTarget, v, \<sigma>)
           | _ \<Rightarrow> (length data, Some NotPointer, v, \<sigma>)))"

text \<open>
  \<^verbatim>\<open>Unmarshal(data, v)\<close>: the error, the state of the target afterwards and the store
  afterwards.
\<close>

definition Unmarshal :: "methods \<Rightarrow> store \<Rightarrow> byte list \<Rightarrow> val \<Rightarrow> error option \<times> val \<times> store" where
  "Unmarshal M \<sigma> data v =
     (case UnmarshalPartial M \<sigma> data v of
        (remaining, Some e, v', \<sigma>') \<Rightarrow> (Some e, v', \<sigma>')
      | (remaining, None, v', \<sigma>') \<Rightarrow>
          (if remaining > 0 then (Some (TrailingData remaining), v', \<sigma>') else (None, v', \<sigma>')))"

text \<open>A program in which no type has a \<^verbatim>\<open>MarshalBinary\<close> or \<^verbatim>\<open>UnmarshalBinary\<close> method.\<close>

definition no_methods :: methods where
  "no_methods = \<lparr>MarshalBinary = (\<lambda>v. None), UnmarshalBinary = (\<lambda>v. None)\<rparr>"

section \<open>Predicates used in the statements\<close>

text \<open>
  The fixed length a tag gives, as every codec function computes it: the tag is not empty
  and \<^verbatim>\<open>parseTag\<close> accepts it.
\<close>

definition tag_len :: "string \<Rightarrow> 32 word option" where
  "tag_len tag =
     (case (if tag \<noteq> [] then parseTag tag else Inl EmptyTag) of
        Inr n \<Rightarrow> Some n
      | Inl _ \<Rightarrow> None)"

text \<open>
  A scalar type other than \<^verbatim>\<open>bool\<close> and \<^verbatim>\<open>int\<close>: its zero value is encoded as so many zero
  bytes and decoded from them.
\<close>

fun plain_scalar :: "ty \<Rightarrow> bool" where
  "plain_scalar (TScalar k) = (k \<noteq> KBool \<and> k \<noteq> KInt)"
| "plain_scalar _ = False"

text \<open>
  A fixed length that suits the value it is put on.  On a string any length does.  On a
  slice or an array (looking through pointers, as the codec passes the tag through them) it
  is at most the number of elements, so that no zero value is written, or else the
  elements are such scalars (bytes are), whose zero value can be written and read back.
  Scalars and structs ignore their tag.
\<close>

fun fits :: "string \<Rightarrow> val \<Rightarrow> bool" where
  "fits tag (VSlice T xs) =
     (case tag_len tag of None \<Rightarrow> True | Some n \<Rightarrow> unat n \<le> length xs \<or> plain_scalar T)"
| "fits tag (VArray T xs) =
     (case tag_len tag of None \<Rightarrow> True | Some n \<Rightarrow> unat n \<le> length xs \<or> plain_scalar T)"
| "fits tag (VPtr x) = fits tag x"
| "fits tag _ = True"

text \<open>
  The values on which encoding followed by decoding is characterised: scalars other than
  \<^verbatim>\<open>bool\<close> (never decoded) and \<^verbatim>\<open>int\<close> (refused by \<^verbatim>\<open>encoding/binary\<close>), strings, non-nil
  slices and arrays of such values, all shorter than \<open>2^32\<close> (the count is written as a
  \<^verbatim>\<open>uint32\<close>), non-nil pointers, and structs all of whose fields are exported, not excluded
  and either without a length tag or with one that suits the field (\<^const>\<open>fits\<close>).  The
  predicate is about a value whose pointers have been followed (\<^const>\<open>deep\<close>).
\<close>

fun codable :: "val \<Rightarrow> bool" where
  "codable (VScalar s) = (kind_of s \<noteq> KBool \<and> kind_of s \<noteq> KInt)"
| "codable (VString s) = (length s < 2 ^ 32)"
| "codable (VNilSlice T) = False"
| "codable (VSlice T xs) = (length xs < 2 ^ 32 \<and> list_all (\<lambda>x. codable x \<and> type_of x = T) xs)"
| "codable (VArray T xs) = (length xs < 2 ^ 32 \<and> list_all (\<lambda>x. codable x \<and> type_of x = T) xs)"
| "codable (VStruct fs) =
     list_all (\<lambda>fv. sf_exported (fst fv) \<and> sf_tag (fst fv) \<noteq> ''-'' \<and>
                     fits (sf_tag (fst fv)) (snd fv) \<and> codable (snd fv)) fs"
| "codable (VNilPtr T) = False"
| "codable (VPtr x) = codable x"
| "codable (VRef T a) = False"
| "codable VOther = False"

text \<open>
  The encoding of a codable value under a tag that fits is not empty: a scalar, anything
  with a length prefix, a string or byte sequence of a fixed length other than zero, a
  fixed-length sequence or a struct with such a part, a fixed-length sequence filled up
  with zero values.  (What is left is the struct without fields, and what is made of it or
  has the fixed length zero.)
\<close>

function (sequential) emits :: "string \<Rightarrow> val \<Rightarrow> bool" where
  "emits tag (VScalar s) = True"
| "emits tag (VString s) = (tag_len tag \<noteq> Some 0)"
| "emits tag (VSlice T xs) =
     (case tag_len tag of
        None \<Rightarrow> True
      | Some n \<Rightarrow>
          if is_byte T then n \<noteq> 0
          else list_ex (emits []) (take (unat n) xs) \<or> length xs < unat n)"
| "emits tag (VArray T xs) =
     (case tag_len tag of
        None \<Rightarrow> True
      | Some n \<Rightarrow>
          if is_byte T then n \<noteq> 0
          else list_ex (emits []) (take (unat n) xs) \<or> length xs < unat n)"
| "emits tag (VStruct fs) = list_ex (\<lambda>fv. emits (sf_tag (fst fv)) (snd fv)) fs"
| "emits tag (VPtr x) = emits tag x"
| "emits tag _ = False"
  by pat_completeness auto

termination
proof -
  have mem: "size x < Suc (size_list size xs)" if "x \<in> set xs" for x :: val and xs
    using that by (induction xs) auto
  have elem: "size x < Suc (size_list size xs)" if "x \<in> set (take k xs)"
    for x :: val and xs k
    using that by (intro mem) (rule in_set_takeD)
  have field: "size (snd fv) < Suc (size_list (size_prod (\<lambda>x. 0) size) fs)"
    if "fv \<in> set fs" for fv :: "StructField \<times> val" and fs
    using that by (induction fs) auto
  show ?thesis
    apply (relation "measure (\<lambda>p. size (snd p))")
    apply (simp_all add: elem field)
    done
qed

text \<open>
  The payload of a string or byte sequence is read by one \<^verbatim>\<open>buf.Read(data)\<close>, which reports
  \<^verbatim>\<open>io.EOF\<close> on a reader that is exhausted, also when \<open>data\<close> is empty.  So an empty payload
  (of an untagged string or byte sequence that is empty, or of one with the fixed length
  zero) can be decoded only if some byte follows it.  \<open>ends_well tag v\<close>: inside the
  encoding of \<open>v\<close>, every empty payload is followed by a byte; nothing need follow the
  encoding then.  \<open>ends_well_elems\<close> and \<open>ends_well_fields\<close> say it of the elements of a
  sequence and of the fields of a struct: each of them ends well, or is followed by one
  whose encoding is not empty.
\<close>

function (sequential)
    ends_well :: "string \<Rightarrow> val \<Rightarrow> bool"
and ends_well_elems :: "val list \<Rightarrow> bool"
and ends_well_fields :: "(StructField \<times> val) list \<Rightarrow> bool"
where
  "ends_well tag (VString s) = (case tag_len tag of None \<Rightarrow> s \<noteq> [] | Some n \<Rightarrow> n \<noteq> 0)"
| "ends_well tag (VSlice T xs) =
     (if is_byte T then (case tag_len tag of None \<Rightarrow> xs \<noteq> [] | Some n \<Rightarrow> n \<noteq> 0)
      else (case tag_len tag of
              None \<Rightarrow> ends_well_elems xs
            | Some n \<Rightarrow> ends_well_elems (take (unat n) xs)))"
| "ends_well tag (VArray T xs) =
     (if is_byte T then (case tag_len tag of None \<Rightarrow> xs \<noteq> [] | Some n \<Rightarrow> n \<noteq> 0)
      else (case tag_len tag of
              None \<Rightarrow> ends_well_elems xs
            | Some n \<Rightarrow> ends_well_elems (take (unat n) xs)))"
| "ends_well tag (VStruct fs) = ends_well_fields fs"
| "ends_well tag (VPtr x) = ends_well tag x"
| "ends_well tag v = True"
| "ends_well_elems [] = True"
| "ends_well_elems (x # xs) =
     ((ends_well [] x \<or> list_ex (emits []) xs) \<and> ends_well_elems xs)"
| "ends_well_fields [] = True"
| "ends_well_fields ((f, x) # fs) =
     ((ends_well (sf_tag f) x \<or> list_ex (\<lambda>fv. emits (sf_tag (fst fv)) (snd fv)) fs) \<and>
      ends_well_fields fs)"
  by pat_completeness auto

termination
proof -
  have taken: "size_list size (take k xs) < Suc (size_list size xs)"
    for k and xs :: "val list"
  proof (induction xs arbitrary: k)
    case Nil
    show ?case by simp
  next
    case (Cons x xs)
    show ?case using Cons [of "k - 1"] by (cases k) auto
  qed
  show ?thesis
    apply (relation "measure (\<lambda>c. case c of
              Inl (tag, v) \<Rightarrow> size v
            | Inr (Inl xs) \<Rightarrow> size_list size xs
            | Inr (Inr fs) \<Rightarrow> size_list (size_prod (\<lambda>x. 0) size) fs)")
    apply (simp_all add: taken)
    done
qed

text \<open>
  What a fixed length that fits leaves of a field: the first \<open>n\<close> bytes of a string without
  their trailing zero bytes; the first \<open>n\<close> elements of a slice, followed by zero values
  up to \<open>n\<close> when the slice has fewer; the first \<open>n\<close> elements of an array followed by
  zero values up to its size.
\<close>

fun cut :: "string \<Rightarrow> val \<Rightarrow> val" where
  "cut tag (VString s) =
     (case tag_len tag of None \<Rightarrow> VString s | Some n \<Rightarrow> VString (TrimRight0 (take (unat n) s)))"
| "cut tag (VSlice T xs) =
     (case tag_len tag of
        None \<Rightarrow> VSlice T xs
      | Some n \<Rightarrow> VSlice T (take (unat n) xs @ replicate (unat n - length xs) (zero T)))"
| "cut tag (VArray T xs) =
     (case tag_len tag of
        None \<Rightarrow> VArray T xs
      | Some n \<Rightarrow> VArray T (take (unat n) xs @ replicate (length xs - unat n) (zero T)))"
| "cut tag (VPtr x) = VPtr (cut tag x)"
| "cut tag v = v"

text \<open>The value with every tagged field of every struct inside it cut to its tag.\<close>

fun expected :: "val \<Rightarrow> val" where
  "expected (VSlice T xs) = VSlice T (map expected xs)"
| "expected (VArray T xs) = VArray T (map expected xs)"
| "expected (VStruct fs) =
     VStruct (map (\<lambda>fv. (fst fv, cut (sf_tag (fst fv)) (expected (snd fv)))) fs)"
| "expected (VPtr x) = VPtr (expected x)"
| "expected v = v"

text \<open>No field of a struct inside the value has a length tag.\<close>

fun no_length_tags :: "val \<Rightarrow> bool" where
  "no_length_tags (VSlice T xs) = list_all no_length_tags xs"
| "no_length_tags (VArray T xs) = list_all no_length_tags xs"
| "no_length_tags (VStruct fs) =
     list_all (\<lambda>fv. tag_len (sf_tag (fst fv)) = None \<and> no_length_tags (snd fv)) fs"
| "no_length_tags (VPtr x) = no_length_tags x"
| "no_length_tags _ = True"

text \<open>
  A decode target in which every pointer that the decoder follows is nil or refers to a
  variable of its own, none to a variable of the store.  (The elements of a slice of the
  target are not followed: a slice is decoded into new elements.)  A freshly declared
  variable, all of whose pointers are nil, is such a target.
\<close>

fun unshared :: "val \<Rightarrow> bool" where
  "unshared (VArray T xs) = list_all unshared xs"
| "unshared (VStruct fs) = list_all (\<lambda>fv. unshared (snd fv)) fs"
| "unshared (VPtr x) = unshared x"
| "unshared (VRef T a) = False"
| "unshared _ = True"

text \<open>
  The \<open>n\<close> elements that the spec has a sequence tagged \<open>Fixed(n)\<close> written as: the first
  \<open>min(n, len)\<close> elements of the sequence, then zero values of the element type.
\<close>

definition fixed_run :: "ty \<Rightarrow> val list \<Rightarrow> 32 word \<Rightarrow> val list" where
  "fixed_run T xs n = take (unat n) xs @ replicate (unat n - length xs) (zero T)"

text \<open>
  What a loop of \<^verbatim>\<open>encodeField(elem, buf, "")\<close> over given elements comes to: the error of
  the first element that cannot be encoded, or else the encodings of all of them, one
  after the other.
\<close>

definition encodings :: "methods \<Rightarrow> store \<Rightarrow> val list \<Rightarrow> error + byte list" where
  "encodings M \<sigma> es =
     (case find (\<lambda>e. isl (encodeField M \<sigma> e [])) es of
        Some e \<Rightarrow> Inl (projl (encodeField M \<sigma> e []))
      | None \<Rightarrow> Inr (concat (map (\<lambda>e. projr (encodeField M \<sigma> e [])) es)))"

section \<open>Example values\<close>

text \<open>
  The records of the package's tests and of the spec's scenarios:
  \<^verbatim>\<open>struct{A uint32; B int16; C uint8}{12345, -100, 255}\<close>,
  \<^verbatim>\<open>struct{A int32; B string}{42, "hello"}\<close>,
  \<^verbatim>\<open>struct{Number uint32; Name string `binary:"3"`}{42, "hello"}\<close>,
  \<^verbatim>\<open>struct{Name string; Age uint8}{"", 30}\<close> and, with tags wider than the fields,
  \<^verbatim>\<open>struct{Name string `binary:"4"`; Numbers []uint32 `binary:"3"`}{"hi", {7}}\<close>; the store
  without variables.
\<close>

definition simple_struct :: val where
  "simple_struct = VStruct
     [(StructField ''A'' True [], VScalar (SUint32 12345)),
      (StructField ''B'' True [], VScalar (SInt16 (- 100))),
      (StructField ''C'' True [], VScalar (SUint8 255))]"

definition int_and_string :: val where
  "int_and_string = VStruct
     [(StructField ''A'' True [], VScalar (SInt32 42)),
      (StructField ''B'' True [], VString [104, 101, 108, 108, 111])]"

definition tagged_name :: val where
  "tagged_name = VStruct
     [(StructField ''Number'' True [], VScalar (SUint32 42)),
      (StructField ''Name'' True ''3'', VString [104, 101, 108, 108, 111])]"

definition empty_name :: val where
  "empty_name = VStruct
     [(StructField ''Name'' True [], VString []),
      (StructField ''Age'' True [], VScalar (SUint8 30))]"

definition wide_tags :: val where
  "wide_tags = VStruct
     [(StructField ''Name'' True ''4'', VString [104, 105]),
      (StructField ''Numbers'' True ''3'', VSlice (TScalar KUint32) [VScalar (SUint32 7)])]"

definition no_variables :: store where
  "no_variables = (\<lambda>a. None)"

text \<open>
  \<^verbatim>\<open>struct{P, Q *uint16}\<close> with given pointers, and a store whose only variable is a
  \<^verbatim>\<open>uint16\<close> at the address 0.
\<close>

definition two_pointers :: "val \<Rightarrow> val \<Rightarrow> val" where
  "two_pointers p q = VStruct [(StructField ''P'' True [], p), (StructField ''Q'' True [], q)]"

definition one_uint16 :: "16 word \<Rightarrow> store" where
  "one_uint16 w = no_variables(0 \<mapsto> VScalar (SUint16 w))"

text \<open>
  The custom type of \<^verbatim>\<open>binary_test.go\<close>, \<^verbatim>\<open>type CustomType struct{ Value string }\<close>.  Its
  \<^verbatim>\<open>MarshalBinary\<close> has a value receiver, so it is in the method set of \<^verbatim>\<open>CustomType\<close> and of
  \<^verbatim>\<open>*CustomType\<close>, and returns \<^verbatim>\<open>"custom:" + c.Value\<close>; called through a nil pointer it
  panics.  Its \<^verbatim>\<open>UnmarshalBinary\<close> has a pointer receiver; it returns at once when the data
  do not start with \<^verbatim>\<open>"custom:"\<close> and otherwise stores what follows in \<^verbatim>\<open>c.Value\<close>, which
  panics when \<open>c\<close> is nil.  \<open>test_methods\<close> is a program with these two methods and no
  other; \<open>readme_methods\<close> is the README's variant, in which \<^verbatim>\<open>MarshalBinary\<close> has a pointer
  receiver as well (and reads \<^verbatim>\<open>c.Value\<close>).
\<close>

definition CustomType :: "byte list \<Rightarrow> val" where
  "CustomType v = VStruct [(StructField ''Value'' True [], VString v)]"

definition CustomType_type :: ty where
  "CustomType_type = TStruct [(StructField ''Value'' True [], TString)]"

definition custom_prefix :: "byte list" where
  "custom_prefix = [99, 117, 115, 116, 111, 109, 58]"

fun CustomType_Value :: "val \<Rightarrow> byte list" where
  "CustomType_Value (VStruct [(f, VString s)]) = s"
| "CustomType_Value _ = []"

text \<open>The methods called on a receiver of type \<^verbatim>\<open>*CustomType\<close>.\<close>

definition CustomType_MarshalBinary_ptr :: "val \<Rightarrow> store \<Rightarrow> error + byte list" where
  "CustomType_MarshalBinary_ptr p \<sigma> =
     (case p of
        VPtr c \<Rightarrow> Inr (custom_prefix @ CustomType_Value c)
      | VRef T a \<Rightarrow> Inr (custom_prefix @ CustomType_Value (load \<sigma> T a))
      | _ \<Rightarrow> Inl Panic)"

definition CustomType_UnmarshalBinary_ptr ::
  "val \<Rightarrow> store \<Rightarrow> byte list \<Rightarrow> error option \<times> val \<times> store" where
  "CustomType_UnmarshalBinary_ptr p \<sigma> data =
     (if length data < 7 \<or> take 7 data \<noteq> custom_prefix then (None, p, \<sigma>)
      else case p of
          VPtr c \<Rightarrow> (None, VPtr (CustomType (drop 7 data)), \<sigma>)
        | VRef T a \<Rightarrow> (None, p, \<sigma>(a \<mapsto> CustomType (drop 7 data)))
        | _ \<Rightarrow> (Some Panic, p, \<sigma>))"

definition test_methods :: methods where
  "test_methods =
     \<lparr>MarshalBinary =
        (\<lambda>v. if type_of v = CustomType_type
             then Some (\<lambda>\<sigma>. Inr (custom_prefix @ CustomType_Value v))
             else if type_of v = TPtr CustomType_type
             then Some (CustomType_MarshalBinary_ptr v)
             else None),
      UnmarshalBinary =
        (\<lambda>v. if type_of v = TPtr CustomType_type
             then Some (CustomType_UnmarshalBinary_ptr v)
             else None)\<rparr>"

definition readme_methods :: methods where
  "readme_methods =
     \<lparr>MarshalBinary =
        (\<lambda>v. if type_of v = TPtr CustomType_type
             then Some (CustomType_MarshalBinary_ptr v)
             else None),
      UnmarshalBinary =
        (\<lambda>v. if type_of v = TPtr CustomType_type
             then Some (CustomType_UnmarshalBinary_ptr v)
             else None)\<rparr>"

section \<open>Little-endian words and scalars\<close>

lemma le_bytes_Suc: "le_bytes (Suc k) w = ucast w # le_bytes k (drop_bit 8 w)"
proof -
  have "[0..<Suc k] = 0 # map Suc [0..<k]"
    by (simp add: upt_conv_Cons map_Suc_upt del: upt_Suc)
  then show ?thesis
    by (simp add: le_bytes_def drop_bit_drop_bit comp_def add.commute del: upt_Suc)
qed

lemma le_word_Cons: "le_word (b # bs) = ucast b OR push_bit 8 (le_word bs)"
  by (simp add: le_word_def)

lemma le_word_le_bytes: "(le_word (le_bytes k w) :: 'a::len word) = take_bit (8 * k) w"
proof (induction k arbitrary: w)
  case 0
  show ?case by (simp add: le_bytes_def le_word_def)
next
  case (Suc k)
  have "(ucast (ucast w :: byte) :: 'a word) OR push_bit 8 (take_bit (8 * k) (drop_bit 8 w))
        = take_bit (8 * Suc k) w"
  proof (rule bit_word_eqI)
    fix n assume n: "n < LENGTH('a)"
    show "bit (ucast (ucast w :: byte) OR push_bit 8 (take_bit (8 * k) (drop_bit 8 w))) n
          = bit (take_bit (8 * Suc k) w) n"
    proof (cases "n < 8")
      case True
      with n show ?thesis by (simp add: bit_simps)
    next
      case False
      then have "8 + (n - 8) = n" by simp
      with False n show ?thesis by (auto simp: bit_simps)
    qed
  qed
  then show ?case by (simp add: le_bytes_Suc le_word_Cons Suc.IH)
qed

lemma length_le_bytes [simp]: "length (le_bytes k w) = k"
  by (simp add: le_bytes_def)

lemma le_word_le_bytes_full:
  "LENGTH('a::len) \<le> 8 * k \<Longrightarrow> (le_word (le_bytes k w) :: 'a word) = w"
  by (simp add: le_word_le_bytes take_bit_word_eq_self)

lemma length_binary_Write:
  "binary_Write s = Inr bs \<Longrightarrow> length bs = width (kind_of s)"
  by (cases s) auto

lemma binary_Write_ok:
  "kind_of s \<noteq> KInt \<Longrightarrow> \<exists>bs. binary_Write s = Inr bs"
  by (cases s) auto

lemma scalar_of_bytes_binary_Write:
  "binary_Write s = Inr bs \<Longrightarrow> scalar_of_bytes (kind_of s) bs = s"
  by (cases s) (auto simp: le_word_le_bytes_full split: if_splits)

lemma binary_Read_binary_Write:
  assumes "binary_Write s = Inr bs"
  shows "binary_Read (bs @ rest) (kind_of s) = (Inr s, rest)"
proof -
  from assms have k: "kind_of s \<noteq> KInt" by (cases s) auto
  from assms have len: "length bs = width (kind_of s)" by (rule length_binary_Write)
  with assms k show ?thesis
    by (simp add: binary_Read_def ReadFull_def scalar_of_bytes_binary_Write)
qed

lemma Read_uint32_Write_uint32:
  "Read_uint32 (Write_uint32 w @ rest) = (Inr w, rest)"
  by (simp add: Read_uint32_def Write_uint32_def ReadFull_def le_word_le_bytes_full)

lemma replicate_numeral: "replicate (numeral k) x = x # replicate (pred_numeral k) x"
  by (simp add: numeral_eq_Suc)


text \<open>
  The scalar codec on the kinds other than \<^verbatim>\<open>bool\<close> and \<^verbatim>\<open>int\<close>: \<^verbatim>\<open>encodeField\<close> writes the
  little-endian bytes, as many as the kind is wide; \<^verbatim>\<open>decodeField\<close> takes that many bytes
  from the reader, or reports \<^verbatim>\<open>io.EOF\<close>/\<^verbatim>\<open>io.ErrUnexpectedEOF\<close> and leaves the target as it
  was when fewer are left.
\<close>

lemma encodeField_scalar:
  "encodeField M \<sigma> (VScalar s) tag = binary_Write s"
  by simp

lemma decodeField_scalar_enough:
  assumes "kind_of s \<noteq> KBool" "kind_of s \<noteq> KInt" "width (kind_of s) \<le> length r"
  shows "decodeField M \<sigma> r (VScalar s) tag =
           (None, VScalar (scalar_of_bytes (kind_of s) (take (width (kind_of s)) r)), \<sigma>,
            drop (width (kind_of s)) r)"
  using assms by (simp add: binary_Read_def ReadFull_def)

lemma decodeField_scalar_short:
  assumes "kind_of s \<noteq> KBool" "kind_of s \<noteq> KInt" "length r < width (kind_of s)"
  shows "\<exists>e r'. decodeField M \<sigma> r (VScalar s) tag = (Some e, VScalar s, \<sigma>, r') \<and>
                insufficient_data e"
  using assms by (simp add: binary_Read_def ReadFull_def insufficient_data_def)

section \<open>Length tags, fixed-length strings and byte sequences\<close>

lemma parseTag_nonempty: "parseTag tag = Inr n \<Longrightarrow> tag \<noteq> []"
  by (auto simp: parseTag_def)

lemma tag_len_Some: "tag_len tag = Some n \<longleftrightarrow> parseTag tag = Inr n"
  by (auto simp: tag_len_def parseTag_def split: sum.splits)

lemma tag_len_SomeD:
  "tag_len tag = Some n \<Longrightarrow> (if tag \<noteq> [] then parseTag tag else Inl EmptyTag) = Inr n"
  by (auto simp: tag_len_def split: sum.splits if_splits)

lemma tag_len_NoneD:
  "tag_len tag = None \<Longrightarrow> \<exists>e. (if tag \<noteq> [] then parseTag tag else Inl EmptyTag) = Inl e"
  by (auto simp: tag_len_def split: sum.splits if_splits)

lemma tag_len_empty [simp]: "tag_len [] = None"
  by (simp add: tag_len_def)

lemma unat_of_nat32: "n < 2 ^ 32 \<Longrightarrow> unat (of_nat n :: 32 word) = n"
  by (simp add: unat_of_nat take_bit_nat_eq_self)

text \<open>
  With a tag that parses to \<open>n\<close>, a payload shorter than \<open>2^32\<close> bytes is written as exactly
  \<open>n\<close> bytes, cut or padded with zeros, with no prefix; and when the reader holds at least
  \<open>n\<close> bytes and is not exhausted, \<open>n\<close> bytes are read, a string losing its trailing zero
  bytes and a byte sequence keeping them.
\<close>

lemma encodeString_fixed:
  assumes "parseTag tag = Inr n" "length s < 2 ^ 32"
  shows "encodeString s tag = take (unat n) s @ replicate (unat n - length s) 0"
    and "length (encodeString s tag) = unat n"
proof -
  from assms(1) have tag: "tag \<noteq> []" by (rule parseTag_nonempty)
  have lt: "(of_nat (length s) :: 32 word) < n \<longleftrightarrow> length s < unat n"
    and gt: "n < (of_nat (length s) :: 32 word) \<longleftrightarrow> unat n < length s"
    using assms(2) by (simp_all add: word_less_nat_alt unat_of_nat32)
  show "encodeString s tag = take (unat n) s @ replicate (unat n - length s) 0"
    using assms(1) tag lt gt by (auto simp: encodeString_def)
  then show "length (encodeString s tag) = unat n" by auto
qed

lemma encodeBytes_fixed:
  assumes "parseTag tag = Inr n" "length b < 2 ^ 32"
  shows "encodeBytes b tag = take (unat n) b @ replicate (unat n - length b) 0"
    and "length (encodeBytes b tag) = unat n"
  using encodeString_fixed [OF assms] by (simp_all add: encodeBytes_def encodeString_def)

lemma read_payload_fixed:
  assumes "parseTag tag = Inr n" "unat n \<le> length r" "r \<noteq> []"
  shows "read_payload r tag = (Inr (True, take (unat n) r), drop (unat n) r)"
  using assms parseTag_nonempty [OF assms(1)]
  by (simp add: read_payload_def Reader_Read_def)

lemma decodeString_fixed:
  assumes "parseTag tag = Inr n" "unat n \<le> length r" "r \<noteq> []"
  shows "decodeString r old tag = (None, TrimRight0 (take (unat n) r), drop (unat n) r)"
  using read_payload_fixed [OF assms] by (simp add: decodeString_def)

lemma decodeBytes_fixed:
  assumes "parseTag tag = Inr n" "unat n \<le> length r" "r \<noteq> []"
  shows "decodeBytes r T old tag = (None, VSlice T (byte_vals (take (unat n) r)), drop (unat n) r)"
  using read_payload_fixed [OF assms] by (simp add: decodeBytes_def)

lemma decodeByteArray_fixed:
  assumes "parseTag tag = Inr n" "unat n \<le> length r" "r \<noteq> []"
  shows "decodeByteArray r xs tag =
           (None, byte_vals (take (min (unat n) (length xs)) r)
                    @ replicate (length xs - unat n) (VScalar (SUint8 0)), drop (unat n) r)"
  using read_payload_fixed [OF assms] assms(2)
  by (auto simp: decodeByteArray_def Let_def min_def)

lemma parseTag_5: "parseTag ''5'' = Inr 5"
  by (simp add: parseTag_def ParseUint_def is_digit_def)

lemma parseTag_0: "parseTag ''0'' = Inr 0"
  by (simp add: parseTag_def ParseUint_def is_digit_def)

section \<open>Fixed-length sequences\<close>

text \<open>
  The elements a fixed-length loop visits: the sequence's own first \<open>n\<close>, then zero values.
\<close>

lemma fixed_elems_eq:
  assumes "length xs < 2 ^ 32"
  shows "fixed_elems T xs n = take (unat n) xs @ replicate (unat n - length xs) (zero T)"
proof (rule nth_equalityI)
  show "length (fixed_elems T xs n)
        = length (take (unat n) xs @ replicate (unat n - length xs) (zero T))"
    by (simp add: fixed_elems_def)
next
  fix i assume "i < length (fixed_elems T xs n)"
  then have i: "i < unat n" by (simp add: fixed_elems_def)
  with assms show "fixed_elems T xs n ! i
        = (take (unat n) xs @ replicate (unat n - length xs) (zero T)) ! i"
    by (auto simp: fixed_elems_def unat_of_nat32 nth_append)
qed

lemma decodeArray_fixed:
  assumes "parseTag tag = Inr n" "length xs < 2 ^ 32"
  shows "decodeArray M \<sigma> r T xs tag =
           (case decodeElems M \<sigma> r (take (unat n) xs @ replicate (unat n - length xs) (zero T)) of
              (Some e, ys, \<sigma>', r') \<Rightarrow> (Some e, take (length xs) ys @ drop (unat n) xs, \<sigma>', r')
            | (None, ys, \<sigma>', r') \<Rightarrow>
                (None, take (length xs) ys @ replicate (length xs - unat n) (zero T), \<sigma>', r'))"
proof -
  have "drop (min (unat n) (length xs)) xs = drop (unat n) xs"
    by (cases "unat n \<le> length xs") (simp_all add: min_def)
  with assms parseTag_nonempty [OF assms(1)] show ?thesis
    by (simp add: read_count_def fixed_elems_eq unat_of_nat32 Let_def
          split: prod.splits option.splits)
qed

section \<open>Encoding followed by decoding\<close>

lemma Reader_Read_exact:
  "bs @ rest \<noteq> [] \<Longrightarrow> Reader_Read (bs @ rest) (length bs) = (None, bs, rest)"
  by (simp add: Reader_Read_def)

lemma read_payload_untagged:
  assumes "tag_len tag = None" "length bs < 2 ^ 32" "bs @ rest \<noteq> []"
  shows "read_payload (Write_uint32 (of_nat (length bs)) @ bs @ rest) tag = (Inr (False, bs), rest)"
  using assms(2,3) tag_len_NoneD [OF assms(1)]
  by (auto simp: read_payload_def Read_uint32_Write_uint32 unat_of_nat32 Reader_Read_exact)

lemma encodeString_untagged:
  "tag_len tag = None \<Longrightarrow> encodeString s tag = Write_uint32 (of_nat (length s)) @ s"
  using tag_len_NoneD [of tag] by (auto simp: encodeString_def)

lemma encodeBytes_untagged:
  "tag_len tag = None \<Longrightarrow> encodeBytes b tag = Write_uint32 (of_nat (length b)) @ b"
  using tag_len_NoneD [of tag] by (auto simp: encodeBytes_def)

lemma read_count_untagged:
  "tag_len tag = None \<Longrightarrow> read_count (Write_uint32 w @ rest) tag = (Inr w, rest)"
  using tag_len_NoneD [of tag] by (auto simp: read_count_def Read_uint32_Write_uint32)

lemma read_count_fixed:
  "tag_len tag = Some n \<Longrightarrow> read_count r tag = (Inr n, r)"
  using tag_len_SomeD [of tag n] by (simp add: read_count_def)

lemma encodeSlice_untagged:
  "tag_len tag = None \<Longrightarrow> length xs < 2 ^ 32 \<Longrightarrow>
   encodeSlice M \<sigma> T xs tag =
     (case encodeElems M \<sigma> xs of Inl e \<Rightarrow> Inl e
      | Inr out \<Rightarrow> Inr (Write_uint32 (of_nat (length xs)) @ out))"
  using tag_len_NoneD [of tag] by (auto simp: unat_of_nat32)

lemma encodeArray_untagged:
  "tag_len tag = None \<Longrightarrow> length xs < 2 ^ 32 \<Longrightarrow>
   encodeArray M \<sigma> T xs tag =
     (case encodeElems M \<sigma> xs of Inl e \<Rightarrow> Inl e
      | Inr out \<Rightarrow> Inr (Write_uint32 (of_nat (length xs)) @ out))"
  using tag_len_NoneD [of tag] by (auto simp: unat_of_nat32)

lemma encodeSlice_fixed:
  "tag_len tag = Some n \<Longrightarrow> length xs < 2 ^ 32 \<Longrightarrow>
   encodeSlice M \<sigma> T xs tag
     = encodeElems M \<sigma> (take (unat n) xs @ replicate (unat n - length xs) (zero T))"
  using tag_len_SomeD [of tag n] by (simp add: fixed_elems_eq)

lemma encodeArray_fixed:
  "tag_len tag = Some n \<Longrightarrow> length xs < 2 ^ 32 \<Longrightarrow>
   encodeArray M \<sigma> T xs tag
     = encodeElems M \<sigma> (take (unat n) xs @ replicate (unat n - length xs) (zero T))"
  using tag_len_SomeD [of tag n] by (simp add: fixed_elems_eq)

lemma decodeString_encodeString:
  assumes "tag_len tag = None" "length s < 2 ^ 32" "s \<noteq> [] \<or> rest \<noteq> []"
  shows "decodeString (encodeString s tag @ rest) old tag = (None, s, rest)"
proof -
  from assms(3) have "s @ rest \<noteq> []" by auto
  from read_payload_untagged [OF assms(1,2) this] show ?thesis
    by (simp add: decodeString_def encodeString_untagged [OF assms(1)])
qed

lemma TrimRight0_zeros: "TrimRight0 (bs @ replicate k 0) = TrimRight0 bs"
proof -
  have "dropWhile (\<lambda>b. b = 0) (replicate k (0 :: byte) @ rev bs) = dropWhile (\<lambda>b. b = 0) (rev bs)"
    by (rule dropWhile_append2) simp
  then show ?thesis by (simp add: TrimRight0_def)
qed

lemma decodeString_encodeString_fixed:
  assumes "tag_len tag = Some n" "length s < 2 ^ 32" "n \<noteq> 0 \<or> rest \<noteq> []"
  shows "decodeString (encodeString s tag @ rest) old tag = (None, TrimRight0 (take (unat n) s), rest)"
proof -
  from assms(1) have tag: "parseTag tag = Inr n" by (simp add: tag_len_Some)
  note enc = encodeString_fixed [OF tag assms(2)]
  from assms(3) have "unat n \<noteq> 0 \<or> rest \<noteq> []" by (auto simp: unat_eq_0)
  with enc(2) have ne: "encodeString s tag @ rest \<noteq> []"
    by (metis append_is_Nil_conv length_0_conv)
  from enc(2) have "unat n \<le> length (encodeString s tag @ rest)" by simp
  from decodeString_fixed [OF tag this ne] enc(2) show ?thesis
    by (simp add: enc(1) TrimRight0_zeros)
qed

lemma length_bytes_of [simp]: "length (bytes_of xs) = length xs"
  by (simp add: bytes_of_def)

lemma length_byte_vals [simp]: "length (byte_vals bs) = length bs"
  by (simp add: byte_vals_def)

lemma bytes_of_take: "bytes_of (take k xs) = take k (bytes_of xs)"
  by (simp add: bytes_of_def take_map)

lemma byte_vals_bytes_of:
  "list_all (\<lambda>x. type_of x = TScalar KUint8) xs \<Longrightarrow> byte_vals (bytes_of xs) = xs"
proof (induction xs)
  case Nil
  show ?case by (simp add: byte_vals_def bytes_of_def)
next
  case (Cons x xs)
  from Cons.prems obtain s where "x = VScalar s" "kind_of s = KUint8"
    by (cases x) auto
  then obtain b where "x = VScalar (SUint8 b)" by (cases s) auto
  with Cons show ?case by (simp add: byte_vals_def bytes_of_def)
qed

lemma byte_vals_bytes_of_take:
  assumes "list_all (\<lambda>x. type_of x = TScalar KUint8) xs"
  shows "byte_vals (take k (bytes_of xs)) = take k xs"
proof -
  from assms have "list_all (\<lambda>x. type_of x = TScalar KUint8) (take k xs)"
    by (auto simp: list_all_iff dest: in_set_takeD)
  then have "byte_vals (bytes_of (take k xs)) = take k xs" by (rule byte_vals_bytes_of)
  then show ?thesis by (simp add: bytes_of_take)
qed

lemma decodeBytes_encodeBytes:
  assumes "tag_len tag = None" "length xs < 2 ^ 32" "xs \<noteq> [] \<or> rest \<noteq> []"
    "list_all (\<lambda>x. type_of x = TScalar KUint8) xs"
  shows "decodeBytes (encodeBytes (bytes_of xs) tag @ rest) T old tag = (None, VSlice T xs, rest)"
proof -
  from assms(3) have "bytes_of xs @ rest \<noteq> []" by (auto simp: bytes_of_def)
  with assms(1,2)
  have "read_payload (Write_uint32 (of_nat (length (bytes_of xs))) @ bytes_of xs @ rest) tag
          = (Inr (False, bytes_of xs), rest)"
    by (intro read_payload_untagged) simp_all
  with assms(4) show ?thesis
    by (simp add: decodeBytes_def encodeBytes_untagged [OF assms(1)] byte_vals_bytes_of)
qed

lemma decodeByteArray_encodeBytes:
  assumes "tag_len tag = None" "length xs < 2 ^ 32" "xs \<noteq> [] \<or> rest \<noteq> []"
    "list_all (\<lambda>x. type_of x = TScalar KUint8) xs" "length ys = length xs"
  shows "decodeByteArray (encodeBytes (bytes_of xs) tag @ rest) ys tag = (None, xs, rest)"
proof -
  from assms(3) have "bytes_of xs @ rest \<noteq> []" by (auto simp: bytes_of_def)
  with assms(1,2)
  have "read_payload (Write_uint32 (of_nat (length (bytes_of xs))) @ bytes_of xs @ rest) tag
          = (Inr (False, bytes_of xs), rest)"
    by (intro read_payload_untagged) simp_all
  with assms(4,5) show ?thesis
    by (simp add: decodeByteArray_def encodeBytes_untagged [OF assms(1)] byte_vals_bytes_of)
qed

lemma byte_vals_padded:
  assumes "list_all (\<lambda>x. type_of x = TScalar KUint8) xs"
  shows "byte_vals (take k (bytes_of xs) @ replicate m 0)
           = take k xs @ replicate m (VScalar (SUint8 0))"
  using byte_vals_bytes_of_take [OF assms, of k] by (simp add: byte_vals_def)

lemma fixed_bytes_stream:
  assumes "tag_len tag = Some n" "length xs < 2 ^ 32" "n \<noteq> 0 \<or> rest \<noteq> []"
  shows "parseTag tag = Inr n"
    and "encodeBytes (bytes_of xs) tag
           = take (unat n) (bytes_of xs) @ replicate (unat n - length xs) 0"
    and "unat n \<le> length (encodeBytes (bytes_of xs) tag @ rest)"
    and "encodeBytes (bytes_of xs) tag @ rest \<noteq> []"
    and "take (unat n) (encodeBytes (bytes_of xs) tag @ rest) = encodeBytes (bytes_of xs) tag"
    and "drop (unat n) (encodeBytes (bytes_of xs) tag @ rest) = rest"
proof -
  from assms(1) show tag: "parseTag tag = Inr n" by (simp add: tag_len_Some)
  from assms(2) have lenb: "length (bytes_of xs) < 2 ^ 32" by simp
  note enc = encodeBytes_fixed [OF tag lenb]
  from enc(1) show "encodeBytes (bytes_of xs) tag
           = take (unat n) (bytes_of xs) @ replicate (unat n - length xs) 0" by simp
  from enc(2) show "unat n \<le> length (encodeBytes (bytes_of xs) tag @ rest)" by simp
  from assms(3) have "unat n \<noteq> 0 \<or> rest \<noteq> []" by (auto simp: unat_eq_0)
  with enc(2) show "encodeBytes (bytes_of xs) tag @ rest \<noteq> []"
    by (metis append_is_Nil_conv length_0_conv)
  from enc(2)
  show "take (unat n) (encodeBytes (bytes_of xs) tag @ rest) = encodeBytes (bytes_of xs) tag"
    by simp
  from enc(2) show "drop (unat n) (encodeBytes (bytes_of xs) tag @ rest) = rest" by simp
qed

lemma decodeBytes_encodeBytes_fixed:
  assumes "tag_len tag = Some n" "length xs < 2 ^ 32" "n \<noteq> 0 \<or> rest \<noteq> []"
    "list_all (\<lambda>x. type_of x = TScalar KUint8) xs"
  shows "decodeBytes (encodeBytes (bytes_of xs) tag @ rest) T old tag
           = (None, VSlice T (take (unat n) xs
                                @ replicate (unat n - length xs) (VScalar (SUint8 0))), rest)"
proof -
  note f = fixed_bytes_stream [OF assms(1-3)]
  have "decodeBytes (encodeBytes (bytes_of xs) tag @ rest) T old tag
          = (None, VSlice T (byte_vals (take (unat n) (encodeBytes (bytes_of xs) tag @ rest))),
             drop (unat n) (encodeBytes (bytes_of xs) tag @ rest))"
    by (rule decodeBytes_fixed [OF f(1) f(3) f(4)])
  then have "decodeBytes (encodeBytes (bytes_of xs) tag @ rest) T old tag
          = (None, VSlice T (byte_vals (take (unat n) (bytes_of xs)
                                          @ replicate (unat n - length xs) 0)), rest)"
    by (simp only: f(5) f(6)) (simp only: f(2))
  then show ?thesis
    by (simp only: byte_vals_padded [OF assms(4)])
qed

lemma decodeByteArray_encodeBytes_fixed:
  assumes "tag_len tag = Some n" "length xs < 2 ^ 32" "n \<noteq> 0 \<or> rest \<noteq> []"
    "list_all (\<lambda>x. type_of x = TScalar KUint8) xs" "length ys = length xs"
  shows "decodeByteArray (encodeBytes (bytes_of xs) tag @ rest) ys tag
           = (None, take (unat n) xs @ replicate (length xs - unat n) (VScalar (SUint8 0)), rest)"
proof -
  note f = fixed_bytes_stream [OF assms(1-3)]
  have A: "decodeByteArray (encodeBytes (bytes_of xs) tag @ rest) ys tag
          = (None, byte_vals (take (min (unat n) (length ys))
                                (encodeBytes (bytes_of xs) tag @ rest))
                     @ replicate (length ys - unat n) (VScalar (SUint8 0)),
             drop (unat n) (encodeBytes (bytes_of xs) tag @ rest))"
    by (rule decodeByteArray_fixed [OF f(1) f(3) f(4)])
  have B: "take (min (unat n) (length ys)) (encodeBytes (bytes_of xs) tag @ rest)
                   = take (min (unat n) (length xs)) (bytes_of xs)"
  proof -
    have m: "min (min (unat n) (length xs)) (unat n) = min (unat n) (length xs)" by simp
    have "take (min (unat n) (length ys)) (encodeBytes (bytes_of xs) tag @ rest)
            = take (min (unat n) (length xs))
                (take (unat n) (encodeBytes (bytes_of xs) tag @ rest))"
      by (simp only: take_take m assms(5))
    also have "\<dots> = take (min (unat n) (length xs))
                       (take (unat n) (bytes_of xs) @ replicate (unat n - length xs) 0)"
      by (simp only: f(5)) (simp only: f(2))
    also have "\<dots> = take (min (unat n) (length xs)) (bytes_of xs)"
      by (cases "unat n \<le> length xs") (simp_all add: min_def)
    finally show ?thesis .
  qed
  have C: "byte_vals (take (min (unat n) (length xs)) (bytes_of xs)) = take (unat n) xs"
    using byte_vals_bytes_of_take [OF assms(4), of "min (unat n) (length xs)"]
    by (cases "unat n \<le> length xs") (simp_all add: min_def)
  have "decodeByteArray (encodeBytes (bytes_of xs) tag @ rest) ys tag
          = (None, byte_vals (take (min (unat n) (length xs)) (bytes_of xs))
                     @ replicate (length ys - unat n) (VScalar (SUint8 0)), rest)"
    by (simp only: A B f(6))
  then show ?thesis
    by (simp only: C assms(5))
qed

lemma plain_scalarE:
  assumes "plain_scalar T"
  obtains k where "T = TScalar k" "k \<noteq> KBool" "k \<noteq> KInt"
  using assms by (cases T) auto

lemma ends_well_elems_scalars:
  "list_all (\<lambda>x. \<exists>s. x = VScalar s) ps \<Longrightarrow> ends_well_elems ps"
  by (induction ps) auto

lemma ends_well_elems_pad:
  assumes "ends_well_elems xs" "list_all (\<lambda>x. \<exists>s. x = VScalar s) ps"
  shows "ends_well_elems (xs @ ps)"
  using assms(1)
proof (induction xs)
  case Nil
  from assms(2) show ?case by (simp add: ends_well_elems_scalars)
next
  case (Cons x xs)
  then show ?case by auto
qed

lemma type_of_zero [simp]: "type_of (zero T) = T"
proof (induction T rule: zero.induct)
  case (5 fs)
  then have "map (\<lambda>x. (fst x, type_of (zero (snd x)))) fs = map (\<lambda>x. x) fs"
    by (intro map_cong) auto
  then show ?case by (simp add: comp_def)
next
  case (1 k)
  then show ?case by (cases k) simp_all
qed simp_all

lemma wt_zero [simp]: "wt (zero T)"
  by (induction T rule: zero.induct) (simp_all add: list_all_iff)

lemma map_eq_list_all2:
  "map f xs = map g ys \<Longrightarrow> list_all2 (\<lambda>x y. f x = g y) xs ys"
  by (induction xs arbitrary: ys) auto

lemma type_of_scalarE:
  assumes "type_of t = TScalar k"
  obtains s' where "t = VScalar s'" "kind_of s' = k"
  using assms by (cases t) auto

lemma type_of_sliceE:
  assumes "type_of t = TSlice T"
  obtains "t = VNilSlice T" | ys where "t = VSlice T ys"
  using assms by (cases t) auto

lemma type_of_arrayE:
  assumes "type_of t = TArray n T"
  obtains ys where "t = VArray T ys" "length ys = n"
  using assms by (cases t) auto

lemma type_of_structE:
  assumes "type_of t = TStruct fts"
  obtains gs where "t = VStruct gs" "map (\<lambda>gv. (fst gv, type_of (snd gv))) gs = fts"
  using assms by (cases t) auto

lemma type_of_ptrE:
  assumes "type_of t = TPtr T"
  obtains "t = VNilPtr T" | y where "t = VPtr y" "type_of y = T" | a where "t = VRef T a"
  using assms by (cases t) auto

lemma cut_untagged: "tag_len tag = None \<Longrightarrow> cut tag v = v"
  by (induction tag v rule: cut.induct) simp_all

lemma fits_untagged: "tag_len tag = None \<Longrightarrow> fits tag v"
  by (induction tag v rule: fits.induct) simp_all

lemma expected_scalars:
  "list_all (\<lambda>x. type_of x = TScalar k) xs \<Longrightarrow> map expected xs = xs"
proof (induction xs)
  case Nil
  show ?case by simp
next
  case (Cons x xs)
  from Cons.prems obtain s where "x = VScalar s" by (cases x) auto
  with Cons show ?case by simp
qed

lemma expected_untagged: "no_length_tags v \<Longrightarrow> expected v = v"
proof (induction v)
  case (VSlice T xs)
  then have "map expected xs = map (\<lambda>x. x) xs"
    by (intro map_cong) (auto simp: list_all_iff)
  then show ?case by simp
next
  case (VArray T xs)
  then have "map expected xs = map (\<lambda>x. x) xs"
    by (intro map_cong) (auto simp: list_all_iff)
  then show ?case by simp
next
  case (VStruct fs)
  have "(fst fv, cut (sf_tag (fst fv)) (expected (snd fv))) = fv" if "fv \<in> set fs" for fv
  proof -
    from that VStruct.prems have t: "tag_len (sf_tag (fst fv)) = None" and n: "no_length_tags (snd fv)"
      by (auto simp: list_all_iff)
    have "snd fv \<in> Basic_BNFs.snds fv" by (cases fv) simp
    with VStruct.IH [OF that] n have "expected (snd fv) = snd fv" by simp
    with t show ?thesis by (simp add: cut_untagged)
  qed
  then have "map (\<lambda>fv. (fst fv, cut (sf_tag (fst fv)) (expected (snd fv)))) fs = map (\<lambda>x. x) fs"
    by (intro map_cong) auto
  then show ?case by simp
qed simp_all

lemma fixed_elems_same:
  assumes "length ys < 2 ^ 32" "unat len = length ys"
  shows "fixed_elems T ys len = ys"
  using assms by (simp add: fixed_elems_eq)


lemma unshared_zero [simp]: "unshared (zero T)"
  by (induction T rule: zero.induct) (simp_all add: list_all_iff)

lemma length_fixed_run [simp]: "length (fixed_run T xs n) = unat n"
  by (auto simp: fixed_run_def)

lemma length_Write_uint32 [simp]: "length (Write_uint32 w) = 4"
  by (simp add: Write_uint32_def)

text \<open>
  Where \<^const>\<open>emits\<close> holds, the encoding is not empty: first for the two loops, given the
  fact for the members, then for a value by induction.
\<close>

lemma encodeElems_nonempty:
  assumes "\<And>x enc. x \<in> set xs \<Longrightarrow> emits [] x \<Longrightarrow> encodeField M \<sigma> x [] = Inr enc \<Longrightarrow> enc \<noteq> []"
    and "list_ex (emits []) xs"
    and "encodeElems M \<sigma> xs = Inr enc"
  shows "enc \<noteq> []"
  using assms
proof (induction xs arbitrary: enc)
  case Nil
  then show ?case by simp
next
  case (Cons x xs)
  from Cons.prems(3) obtain e1 e2 where e: "encodeField M \<sigma> x [] = Inr e1"
    "encodeElems M \<sigma> xs = Inr e2" "enc = e1 @ e2"
    by (auto split: sum.splits)
  from Cons.prems(2) consider "emits [] x" | "list_ex (emits []) xs" by auto
  then show ?case
  proof cases
    case 1
    with Cons.prems(1) [of x e1] e show ?thesis by simp
  next
    case 2
    have "e2 \<noteq> []"
    proof (rule Cons.IH [OF _ 2 e(2)])
      fix y enc' assume "y \<in> set xs" "emits [] y" "encodeField M \<sigma> y [] = Inr enc'"
      then show "enc' \<noteq> []" using Cons.prems(1) [of y enc'] by simp
    qed
    with e show ?thesis by simp
  qed
qed

lemma encodeStruct_nonempty:
  assumes "\<And>f x enc. (f, x) \<in> set fs \<Longrightarrow> emits (sf_tag f) x
             \<Longrightarrow> encodeField M \<sigma> x (sf_tag f) = Inr enc \<Longrightarrow> enc \<noteq> []"
    and "list_all (\<lambda>fv. sf_exported (fst fv) \<and> sf_tag (fst fv) \<noteq> ''-'') fs"
    and "list_ex (\<lambda>fv. emits (sf_tag (fst fv)) (snd fv)) fs"
    and "encodeStruct M \<sigma> fs = Inr enc"
  shows "enc \<noteq> []"
  using assms
proof (induction fs arbitrary: enc)
  case Nil
  then show ?case by simp
next
  case (Cons fv fs)
  obtain f x where fv: "fv = (f, x)" by (cases fv)
  from Cons.prems(2) fv have f: "sf_exported f" "sf_tag f \<noteq> ''-''"
    and fs: "list_all (\<lambda>fv. sf_exported (fst fv) \<and> sf_tag (fst fv) \<noteq> ''-'') fs"
    by auto
  show ?case
  proof (cases "MarshalBinary M x")
    case (Some marshal)
    with Cons.prems(4) fv f obtain d out where
      "enc = Write_uint32 (of_nat (length d)) @ d @ out"
      by (auto split: sum.splits)
    then have "length enc \<ge> 4" by simp
    then show ?thesis by auto
  next
    case None
    with Cons.prems(4) fv f obtain e1 e2 where e: "encodeField M \<sigma> x (sf_tag f) = Inr e1"
      "encodeStruct M \<sigma> fs = Inr e2" "enc = e1 @ e2"
      by (auto split: sum.splits)
    from Cons.prems(3) fv consider "emits (sf_tag f) x"
      | "list_ex (\<lambda>fv. emits (sf_tag (fst fv)) (snd fv)) fs" by auto
    then show ?thesis
    proof cases
      case 1
      with Cons.prems(1) [of f x e1] e fv show ?thesis by simp
    next
      case 2
      have "e2 \<noteq> []"
      proof (rule Cons.IH [OF _ fs 2 e(2)])
        fix g y enc'
        assume "(g, y) \<in> set fs" "emits (sf_tag g) y" "encodeField M \<sigma> y (sf_tag g) = Inr enc'"
        then show "enc' \<noteq> []" using Cons.prems(1) [of g y enc'] by simp
      qed
      with e show ?thesis by simp
    qed
  qed
qed

lemma scalar_nonempty:
  assumes "encodeField M \<sigma> (VScalar sc) tag = Inr enc"
  shows "enc \<noteq> []"
proof -
  from assms have w: "binary_Write sc = Inr enc" by simp
  then have "width (kind_of sc) \<noteq> 0" by (cases sc) auto
  with length_binary_Write [OF w] show ?thesis by auto
qed

lemma zero_plain_scalar:
  assumes "plain_scalar T"
  obtains sc where "zero T = VScalar sc" "kind_of sc \<noteq> KBool" "kind_of sc \<noteq> KInt"
    "T = TScalar (kind_of sc)"
proof -
  from assms obtain k where k: "T = TScalar k" "k \<noteq> KBool" "k \<noteq> KInt"
    by (rule plain_scalarE)
  have "kind_of (zero_scalar k) = k" by (cases k) simp_all
  with k show ?thesis by (intro that [of "zero_scalar k"]) simp_all
qed

text \<open>
  The \<open>n\<close> elements of a fixed-length loop over a sequence that the length suits: the
  sequence's own first ones, then zero values, which are scalars when there are any.
\<close>

lemma run_nonempty:
  assumes "\<And>x enc. x \<in> set xs \<Longrightarrow> emits [] x \<Longrightarrow> encodeField M \<sigma> x [] = Inr enc \<Longrightarrow> enc \<noteq> []"
    and "unat n \<le> length xs \<or> plain_scalar T"
    and "list_ex (emits []) (take (unat n) xs) \<or> length xs < unat n"
    and "encodeElems M \<sigma> (fixed_run T xs n) = Inr enc"
  shows "enc \<noteq> []"
proof (rule encodeElems_nonempty [OF _ _ assms(4)])
  fix x enc' assume x: "x \<in> set (fixed_run T xs n)" "emits [] x"
    "encodeField M \<sigma> x [] = Inr enc'"
  show "enc' \<noteq> []"
  proof (cases "x \<in> set (take (unat n) xs)")
    case True
    then have "x \<in> set xs" by (rule in_set_takeD)
    with assms(1) x show ?thesis by simp
  next
    case False
    with x(1) have "x = zero T" "length xs < unat n" by (auto simp: fixed_run_def)
    with assms(2) obtain sc where "x = VScalar sc" by (auto elim: zero_plain_scalar)
    with x(3) scalar_nonempty [of M \<sigma> sc "[]" enc'] show ?thesis by simp
  qed
next
  show "list_ex (emits []) (fixed_run T xs n)"
  proof (cases "length xs < unat n")
    case True
    with assms(2) obtain sc where "zero T = VScalar sc" by (auto elim: zero_plain_scalar)
    with True show ?thesis by (simp add: fixed_run_def list_ex_iff)
  next
    case False
    with assms(3) show ?thesis by (auto simp: fixed_run_def list_ex_iff)
  qed
qed

lemma emits_nonempty:
  assumes "codable v" "fits tag v" "emits tag v" "encodeField M \<sigma> v tag = Inr enc"
  shows "enc \<noteq> []"
  using assms
proof (induction v arbitrary: tag enc)
  case (VScalar s)
  then have w: "binary_Write s = Inr enc" by simp
  from VScalar.prems(1) have "width (kind_of s) \<noteq> 0" by (cases s) auto
  with length_binary_Write [OF w] show ?case by auto
next
  case (VString s)
  show ?case
  proof (cases "tag_len tag")
    case None
    with VString.prems(4) have "enc = Write_uint32 (of_nat (length s)) @ s"
      by (simp add: encodeString_untagged)
    then have "length enc \<ge> 4" by simp
    then show ?thesis by auto
  next
    case (Some n)
    then have tag: "parseTag tag = Inr n" by (simp add: tag_len_Some)
    from VString.prems(1) have len: "length s < 2 ^ 32" by simp
    from VString.prems(3) Some have "unat n \<noteq> 0" by (simp add: unat_eq_0)
    with encodeString_fixed(2) [OF tag len] VString.prems(4) show ?thesis by auto
  qed
next
  case (VSlice T xs)
  from VSlice.prems(1) have len: "length xs < 2 ^ 32"
    and elems: "list_all (\<lambda>x. codable x \<and> type_of x = T) xs" by auto
  show ?case
  proof (cases "tag_len tag")
    case None
    show ?thesis
    proof (cases "is_byte T")
      case True
      with VSlice.prems(4) None
      have "enc = Write_uint32 (of_nat (length (bytes_of xs))) @ bytes_of xs"
        by (simp add: encodeBytes_untagged)
      then have "length enc \<ge> 4" by simp
      then show ?thesis by auto
    next
      case False
      with VSlice.prems(4) None len obtain out where
        "enc = Write_uint32 (of_nat (length xs)) @ out"
        by (auto simp: encodeSlice_untagged simp del: encodeSlice.simps split: sum.splits)
      then have "length enc \<ge> 4" by simp
      then show ?thesis by auto
    qed
  next
    case (Some n)
    then have tag: "parseTag tag = Inr n" by (simp add: tag_len_Some)
    from VSlice.prems(2) Some have fit: "unat n \<le> length xs \<or> plain_scalar T" by simp
    show ?thesis
    proof (cases "is_byte T")
      case True
      from len have lenb: "length (bytes_of xs) < 2 ^ 32" by simp
      from VSlice.prems(3) Some True have "unat n \<noteq> 0" by (simp add: unat_eq_0)
      with encodeBytes_fixed(2) [OF tag lenb] VSlice.prems(4) True show ?thesis by auto
    next
      case False
      with VSlice.prems(4) Some len have e: "encodeElems M \<sigma> (fixed_run T xs n) = Inr enc"
        by (simp add: encodeSlice_fixed fixed_run_def del: encodeSlice.simps)
      from VSlice.prems(3) Some False
      have ex: "list_ex (emits []) (take (unat n) xs) \<or> length xs < unat n" by simp
      show ?thesis
      proof (rule run_nonempty [OF _ fit ex e])
        fix x enc' assume x: "x \<in> set xs" "emits [] x" "encodeField M \<sigma> x [] = Inr enc'"
        with elems have "codable x" by (simp add: list_all_iff)
        with VSlice.IH [OF x(1) _ _ x(2,3)] show "enc' \<noteq> []"
          by (simp add: fits_untagged)
      qed
    qed
  qed
next
  case (VArray T xs)
  from VArray.prems(1) have len: "length xs < 2 ^ 32"
    and elems: "list_all (\<lambda>x. codable x \<and> type_of x = T) xs" by auto
  show ?case
  proof (cases "tag_len tag")
    case None
    show ?thesis
    proof (cases "is_byte T")
      case True
      with VArray.prems(4) None
      have "enc = Write_uint32 (of_nat (length (bytes_of xs))) @ bytes_of xs"
        by (simp add: encodeBytes_untagged)
      then have "length enc \<ge> 4" by simp
      then show ?thesis by auto
    next
      case False
      with VArray.prems(4) None len obtain out where
        "enc = Write_uint32 (of_nat (length xs)) @ out"
        by (auto simp: encodeArray_untagged simp del: encodeArray.simps split: sum.splits)
      then have "length enc \<ge> 4" by simp
      then show ?thesis by auto
    qed
  next
    case (Some n)
    then have tag: "parseTag tag = Inr n" by (simp add: tag_len_Some)
    from VArray.prems(2) Some have fit: "unat n \<le> length xs \<or> plain_scalar T" by simp
    show ?thesis
    proof (cases "is_byte T")
      case True
      from len have lenb: "length (bytes_of xs) < 2 ^ 32" by simp
      from VArray.prems(3) Some True have "unat n \<noteq> 0" by (simp add: unat_eq_0)
      with encodeBytes_fixed(2) [OF tag lenb] VArray.prems(4) True show ?thesis by auto
    next
      case False
      with VArray.prems(4) Some len have e: "encodeElems M \<sigma> (fixed_run T xs n) = Inr enc"
        by (simp add: encodeArray_fixed fixed_run_def del: encodeArray.simps)
      from VArray.prems(3) Some False
      have ex: "list_ex (emits []) (take (unat n) xs) \<or> length xs < unat n" by simp
      show ?thesis
      proof (rule run_nonempty [OF _ fit ex e])
        fix x enc' assume x: "x \<in> set xs" "emits [] x" "encodeField M \<sigma> x [] = Inr enc'"
        with elems have "codable x" by (simp add: list_all_iff)
        with VArray.IH [OF x(1) _ _ x(2,3)] show "enc' \<noteq> []"
          by (simp add: fits_untagged)
      qed
    qed
  qed
next
  case (VStruct fs)
  from VStruct.prems(4) have e: "encodeStruct M \<sigma> fs = Inr enc" by simp
  from VStruct.prems(3) have ex: "list_ex (\<lambda>fv. emits (sf_tag (fst fv)) (snd fv)) fs" by simp
  from VStruct.prems(1)
  have ok: "list_all (\<lambda>fv. sf_exported (fst fv) \<and> sf_tag (fst fv) \<noteq> ''-'') fs"
    by (auto simp: list_all_iff)
  show ?case
  proof (rule encodeStruct_nonempty [OF _ ok ex e])
    fix f x enc'
    assume x: "(f, x) \<in> set fs" "emits (sf_tag f) x" "encodeField M \<sigma> x (sf_tag f) = Inr enc'"
    with VStruct.prems(1) have "codable x" "fits (sf_tag f) x" by (auto simp: list_all_iff)
    with VStruct.IH [of "(f, x)" x "sf_tag f" enc'] x show "enc' \<noteq> []" by simp
  qed
next
  case (VPtr x)
  then show ?case by simp
qed simp_all

text \<open>
  The two loops, given the round trip of the members: the members are taken from the
  last to the first, so that what follows a member in the input is known when its turn
  comes.
\<close>

lemma elems_roundtrip:
  assumes "\<And>x s t. x \<in> set xs \<Longrightarrow> s \<noteq> [] \<or> ends_well [] x \<Longrightarrow> unshared t \<Longrightarrow> wt t
             \<Longrightarrow> type_of t = type_of x
             \<Longrightarrow> \<exists>enc. encodeField M \<sigma> x [] = Inr enc \<and>
                       decodeField M \<sigma>' (enc @ s) t [] = (None, f x, \<sigma>', s)"
    and "\<And>x enc. x \<in> set xs \<Longrightarrow> emits [] x \<Longrightarrow> encodeField M \<sigma> x [] = Inr enc \<Longrightarrow> enc \<noteq> []"
    and "list_all2 (\<lambda>x t. unshared t \<and> wt t \<and> type_of t = type_of x) xs ts"
    and "s \<noteq> [] \<or> ends_well_elems xs"
  shows "\<exists>enc. encodeElems M \<sigma> xs = Inr enc \<and>
               decodeElems M \<sigma>' (enc @ s) ts = (None, map f xs, \<sigma>', s)"
  using assms
proof (induction xs arbitrary: ts)
  case Nil
  then show ?case by simp
next
  case (Cons x xs)
  from Cons.prems(3) obtain t ts' where ts: "ts = t # ts'"
    and t: "unshared t" "wt t" "type_of t = type_of x"
    and ts': "list_all2 (\<lambda>x t. unshared t \<and> wt t \<and> type_of t = type_of x) xs ts'"
    by (auto simp: list_all2_Cons1)
  from Cons.prems(4) have tail: "s \<noteq> [] \<or> ends_well_elems xs" by auto
  have "\<exists>enc. encodeElems M \<sigma> xs = Inr enc \<and>
              decodeElems M \<sigma>' (enc @ s) ts' = (None, map f xs, \<sigma>', s)"
  proof (rule Cons.IH [OF _ _ ts' tail])
    fix y and s :: "byte list" and t
    assume "y \<in> set xs" "s \<noteq> [] \<or> ends_well [] y" "unshared t" "wt t" "type_of t = type_of y"
    then show "\<exists>enc. encodeField M \<sigma> y [] = Inr enc \<and>
                     decodeField M \<sigma>' (enc @ s) t [] = (None, f y, \<sigma>', s)"
      using Cons.prems(1) [of y s t] by simp
  next
    fix y enc assume "y \<in> set xs" "emits [] y" "encodeField M \<sigma> y [] = Inr enc"
    then show "enc \<noteq> []" using Cons.prems(2) [of y enc] by simp
  qed
  then obtain enc2 where
    enc2: "encodeElems M \<sigma> xs = Inr enc2"
          "decodeElems M \<sigma>' (enc2 @ s) ts' = (None, map f xs, \<sigma>', s)"
    by auto
  have "enc2 @ s \<noteq> [] \<or> ends_well [] x"
  proof (cases "s \<noteq> [] \<or> ends_well [] x")
    case True
    then show ?thesis by auto
  next
    case False
    with Cons.prems(4) have ex: "list_ex (emits []) xs" by auto
    have "enc2 \<noteq> []"
    proof (rule encodeElems_nonempty [OF _ ex enc2(1)])
      fix y enc assume "y \<in> set xs" "emits [] y" "encodeField M \<sigma> y [] = Inr enc"
      then show "enc \<noteq> []" using Cons.prems(2) [of y enc] by simp
    qed
    then show ?thesis by simp
  qed
  with Cons.prems(1) [of x "enc2 @ s" t] t obtain enc1 where
    enc1: "encodeField M \<sigma> x [] = Inr enc1"
          "decodeField M \<sigma>' (enc1 @ enc2 @ s) t [] = (None, f x, \<sigma>', enc2 @ s)"
    by auto
  with enc2 ts show ?case by simp
qed

lemma struct_roundtrip:
  assumes "\<And>f x s t. (f, x) \<in> set fs \<Longrightarrow> s \<noteq> [] \<or> ends_well (sf_tag f) x \<Longrightarrow> unshared t
             \<Longrightarrow> wt t \<Longrightarrow> type_of t = type_of x
             \<Longrightarrow> \<exists>enc. encodeField no_methods \<sigma> x (sf_tag f) = Inr enc \<and>
                       decodeField no_methods \<sigma>' (enc @ s) t (sf_tag f) = (None, g f x, \<sigma>', s)"
    and "\<And>f x enc. (f, x) \<in> set fs \<Longrightarrow> emits (sf_tag f) x
             \<Longrightarrow> encodeField no_methods \<sigma> x (sf_tag f) = Inr enc \<Longrightarrow> enc \<noteq> []"
    and "list_all (\<lambda>fv. sf_exported (fst fv) \<and> sf_tag (fst fv) \<noteq> ''-'') fs"
    and "list_all2 (\<lambda>fv gt. fst gt = fst fv \<and> unshared (snd gt) \<and> wt (snd gt) \<and>
                             type_of (snd gt) = type_of (snd fv)) fs gs"
    and "s \<noteq> [] \<or> ends_well_fields fs"
  shows "\<exists>enc. encodeStruct no_methods \<sigma> fs = Inr enc \<and>
               decodeStruct no_methods \<sigma>' (enc @ s) gs
                 = (None, map (\<lambda>fv. (fst fv, g (fst fv) (snd fv))) fs, \<sigma>', s)"
  using assms
proof (induction fs arbitrary: gs)
  case Nil
  then show ?case by simp
next
  case (Cons fv fs)
  obtain f x where fv: "fv = (f, x)" by (cases fv)
  from Cons.prems(4) fv obtain t gs' where gs: "gs = (f, t) # gs'"
    and t: "unshared t" "wt t" "type_of t = type_of x"
    and gs': "list_all2 (\<lambda>fv gt. fst gt = fst fv \<and> unshared (snd gt) \<and> wt (snd gt) \<and>
                                  type_of (snd gt) = type_of (snd fv)) fs gs'"
    by (auto simp: list_all2_Cons1)
  from Cons.prems(3) fv have f: "sf_exported f" "sf_tag f \<noteq> ''-''"
    and fs: "list_all (\<lambda>fv. sf_exported (fst fv) \<and> sf_tag (fst fv) \<noteq> ''-'') fs"
    by auto
  from Cons.prems(5) fv have tail: "s \<noteq> [] \<or> ends_well_fields fs" by auto
  have "\<exists>enc. encodeStruct no_methods \<sigma> fs = Inr enc \<and>
              decodeStruct no_methods \<sigma>' (enc @ s) gs'
                = (None, map (\<lambda>fv. (fst fv, g (fst fv) (snd fv))) fs, \<sigma>', s)"
  proof (rule Cons.IH [OF _ _ fs gs' tail])
    fix h y and s :: "byte list" and t
    assume "(h, y) \<in> set fs" "s \<noteq> [] \<or> ends_well (sf_tag h) y" "unshared t" "wt t"
      "type_of t = type_of y"
    then show "\<exists>enc. encodeField no_methods \<sigma> y (sf_tag h) = Inr enc \<and>
                     decodeField no_methods \<sigma>' (enc @ s) t (sf_tag h) = (None, g h y, \<sigma>', s)"
      using Cons.prems(1) [of h y s t] by simp
  next
    fix h y enc
    assume "(h, y) \<in> set fs" "emits (sf_tag h) y" "encodeField no_methods \<sigma> y (sf_tag h) = Inr enc"
    then show "enc \<noteq> []" using Cons.prems(2) [of h y enc] by simp
  qed
  then obtain enc2 where
    enc2: "encodeStruct no_methods \<sigma> fs = Inr enc2"
          "decodeStruct no_methods \<sigma>' (enc2 @ s) gs'
             = (None, map (\<lambda>fv. (fst fv, g (fst fv) (snd fv))) fs, \<sigma>', s)"
    by auto
  have "enc2 @ s \<noteq> [] \<or> ends_well (sf_tag f) x"
  proof (cases "s \<noteq> [] \<or> ends_well (sf_tag f) x")
    case True
    then show ?thesis by auto
  next
    case False
    with Cons.prems(5) fv have ex: "list_ex (\<lambda>fv. emits (sf_tag (fst fv)) (snd fv)) fs" by auto
    have "enc2 \<noteq> []"
    proof (rule encodeStruct_nonempty [OF _ fs ex enc2(1)])
      fix h y enc
      assume "(h, y) \<in> set fs" "emits (sf_tag h) y"
        "encodeField no_methods \<sigma> y (sf_tag h) = Inr enc"
      then show "enc \<noteq> []" using Cons.prems(2) [of h y enc] by simp
    qed
    then show ?thesis by simp
  qed
  with Cons.prems(1) [of f x "enc2 @ s" t] t fv obtain enc1 where
    enc1: "encodeField no_methods \<sigma> x (sf_tag f) = Inr enc1"
          "decodeField no_methods \<sigma>' (enc1 @ enc2 @ s) t (sf_tag f) = (None, g f x, \<sigma>', enc2 @ s)"
    by auto
  with enc2 gs fv f show ?case by (simp add: no_methods_def)
qed

lemma scalar_roundtrip:
  assumes "kind_of sc \<noteq> KBool" "kind_of sc \<noteq> KInt" "type_of t = TScalar (kind_of sc)"
  shows "\<exists>enc. encodeField M \<sigma> (VScalar sc) tag = Inr enc \<and>
               decodeField M \<sigma>' (enc @ s) t tag = (None, VScalar sc, \<sigma>', s)"
proof -
  from assms(3) obtain s' where t: "t = VScalar s'" "kind_of s' = kind_of sc"
    by (auto elim: type_of_scalarE)
  from assms(2) obtain bs where bs: "binary_Write sc = Inr bs"
    using binary_Write_ok [of sc] by auto
  with assms(1) t show ?thesis
    by (simp add: binary_Read_binary_Write [where s = sc, simplified])
qed

lemma run_roundtrip:
  assumes "\<And>x s t. x \<in> set xs \<Longrightarrow> s \<noteq> [] \<or> ends_well [] x \<Longrightarrow> unshared t \<Longrightarrow> wt t
             \<Longrightarrow> type_of t = type_of x
             \<Longrightarrow> \<exists>enc. encodeField M \<sigma> x [] = Inr enc \<and>
                       decodeField M \<sigma>' (enc @ s) t [] = (None, expected x, \<sigma>', s)"
    and "\<And>x enc. x \<in> set xs \<Longrightarrow> emits [] x \<Longrightarrow> encodeField M \<sigma> x [] = Inr enc \<Longrightarrow> enc \<noteq> []"
    and "list_all (\<lambda>x. type_of x = T) xs"
    and "unat n \<le> length xs \<or> plain_scalar T"
    and "length ts = unat n" "list_all (\<lambda>t. unshared t \<and> wt t \<and> type_of t = T) ts"
    and "s \<noteq> [] \<or> ends_well_elems (take (unat n) xs)"
  shows "\<exists>enc. encodeElems M \<sigma> (fixed_run T xs n) = Inr enc \<and>
               decodeElems M \<sigma>' (enc @ s) ts
                 = (None, take (unat n) (map expected xs)
                            @ replicate (unat n - length xs) (zero T), \<sigma>', s)"
proof -
  have pad: "\<exists>sc. zero T = VScalar sc \<and> kind_of sc \<noteq> KBool \<and> kind_of sc \<noteq> KInt \<and>
                  T = TScalar (kind_of sc)"
    if "length xs < unat n"
    using that assms(4) by (auto elim: zero_plain_scalar)
  have "\<exists>enc. encodeElems M \<sigma> (fixed_run T xs n) = Inr enc \<and>
              decodeElems M \<sigma>' (enc @ s) ts = (None, map expected (fixed_run T xs n), \<sigma>', s)"
  proof (rule elems_roundtrip)
    fix x and s :: "byte list" and t
    assume x: "x \<in> set (fixed_run T xs n)" "s \<noteq> [] \<or> ends_well [] x" "unshared t" "wt t"
      "type_of t = type_of x"
    show "\<exists>enc. encodeField M \<sigma> x [] = Inr enc \<and>
                decodeField M \<sigma>' (enc @ s) t [] = (None, expected x, \<sigma>', s)"
    proof (cases "x \<in> set (take (unat n) xs)")
      case True
      then have "x \<in> set xs" by (rule in_set_takeD)
      with assms(1) x show ?thesis by simp
    next
      case False
      with x(1) have z: "x = zero T" "length xs < unat n" by (auto simp: fixed_run_def)
      from pad [OF z(2)] obtain sc where sc: "zero T = VScalar sc" "kind_of sc \<noteq> KBool"
        "kind_of sc \<noteq> KInt" "T = TScalar (kind_of sc)" by auto
      from x(5) z sc have "type_of t = TScalar (kind_of sc)" by simp
      from scalar_roundtrip [OF sc(2,3) this, of M \<sigma> "[]" \<sigma>' s] z sc show ?thesis by simp
    qed
  next
    fix x enc assume x: "x \<in> set (fixed_run T xs n)" "emits [] x"
      "encodeField M \<sigma> x [] = Inr enc"
    show "enc \<noteq> []"
    proof (cases "x \<in> set (take (unat n) xs)")
      case True
      then have "x \<in> set xs" by (rule in_set_takeD)
      with assms(2) x show ?thesis by simp
    next
      case False
      with x(1) have z: "x = zero T" "length xs < unat n" by (auto simp: fixed_run_def)
      from pad [OF z(2)] obtain sc where "zero T = VScalar sc" by auto
      with z x(3) scalar_nonempty [of M \<sigma> sc "[]" enc] show ?thesis by simp
    qed
  next
    have "type_of x = T" if "x \<in> set (fixed_run T xs n)" for x
      using that assms(3) by (auto simp: fixed_run_def list_all_iff dest: in_set_takeD)
    with assms(5,6)
    show "list_all2 (\<lambda>x t. unshared t \<and> wt t \<and> type_of t = type_of x) (fixed_run T xs n) ts"
      unfolding list_all2_conv_all_nth list_all_iff
      by (metis length_fixed_run nth_mem)
  next
    show "s \<noteq> [] \<or> ends_well_elems (fixed_run T xs n)"
    proof (cases "length xs < unat n")
      case True
      from pad [OF True]
      have "list_all (\<lambda>x. \<exists>s. x = VScalar s) (replicate (unat n - length xs) (zero T))"
        by (auto simp: list_all_iff)
      with assms(7) show ?thesis
        by (auto simp: fixed_run_def intro: ends_well_elems_pad)
    next
      case False
      with assms(7) show ?thesis by (simp add: fixed_run_def)
    qed
  qed
  moreover have "map expected (fixed_run T xs n)
                   = take (unat n) (map expected xs) @ replicate (unat n - length xs) (zero T)"
  proof (cases "length xs < unat n")
    case True
    from pad [OF True] have "expected (zero T) = zero T" by auto
    then show ?thesis by (simp add: fixed_run_def take_map)
  next
    case False
    then show ?thesis by (simp add: fixed_run_def take_map)
  qed
  ultimately show ?thesis by simp
qed

text \<open>
  The main lemma, by induction on the value, for any tag that fits it: encoding succeeds,
  and decoding the output, whatever follows it, into any well-typed target of the value's
  type that shares no pointee gives the value cut to the tag, changes no variable of the
  store and leaves the reader at what follows.  When nothing follows, the value must end
  well.
\<close>

lemma field_roundtrip:
  assumes "codable v" "fits tag v" "s \<noteq> [] \<or> ends_well tag v"
    "unshared t" "wt t" "type_of t = type_of v"
  shows "\<exists>enc. encodeField no_methods \<sigma> v tag = Inr enc \<and>
               decodeField no_methods \<sigma>' (enc @ s) t tag = (None, cut tag (expected v), \<sigma>', s)"
  using assms
proof (induction v arbitrary: s t tag)
  case (VScalar sc)
  from VScalar.prems(6) obtain s' where t: "t = VScalar s'" "kind_of s' = kind_of sc"
    by (auto elim: type_of_scalarE)
  from VScalar.prems(1) obtain bs where bs: "binary_Write sc = Inr bs"
    using binary_Write_ok [of sc] by auto
  with VScalar.prems(1) t show ?case
    by (simp add: binary_Read_binary_Write [where s = sc, simplified])
next
  case (VString str)
  from VString.prems(6) obtain old where t: "t = VString old" by (cases t) auto
  from VString.prems(1) have len: "length str < 2 ^ 32" by simp
  show ?case
  proof (cases "tag_len tag")
    case None
    from VString.prems(3) None have "str \<noteq> [] \<or> s \<noteq> []" by auto
    from decodeString_encodeString [OF None len this, of old] None t show ?thesis by simp
  next
    case (Some n)
    from VString.prems(3) Some have "n \<noteq> 0 \<or> s \<noteq> []" by auto
    from decodeString_encodeString_fixed [OF Some len this, of old] Some t show ?thesis by simp
  qed
next
  case (VNilSlice T)
  then show ?case by simp
next
  case (VSlice T xs)
  from VSlice.prems(1) have len: "length xs < 2 ^ 32"
    and elems: "list_all (\<lambda>x. codable x \<and> type_of x = T) xs" by auto
  from VSlice.prems(6) consider "t = VNilSlice T" | ys where "t = VSlice T ys"
    by (auto elim: type_of_sliceE)
  note t = this
  have IH: "\<exists>enc. encodeField no_methods \<sigma> x [] = Inr enc \<and>
                  decodeField no_methods \<sigma>' (enc @ s) t [] = (None, expected x, \<sigma>', s)"
    if "x \<in> set xs" "s \<noteq> [] \<or> ends_well [] x" "unshared t" "wt t" "type_of t = type_of x"
    for x and s :: "byte list" and t
    using VSlice.IH [of x "[]" s t] that elems
    by (auto simp: list_all_iff cut_untagged fits_untagged)
  have NE: "enc \<noteq> []"
    if "x \<in> set xs" "emits [] x" "encodeField no_methods \<sigma> x [] = Inr enc" for x enc
    using that elems emits_nonempty [of x "[]" no_methods \<sigma> enc]
    by (auto simp: list_all_iff fits_untagged)
  show ?case
  proof (cases "is_byte T")
    case True
    then have T: "T = TScalar KUint8" by (simp add: is_byte_def)
    from elems T have ty: "list_all (\<lambda>x. type_of x = TScalar KUint8) xs"
      by (simp add: list_all_iff)
    then have ex: "map expected xs = xs" by (rule expected_scalars)
    show ?thesis
    proof (cases "tag_len tag")
      case None
      from VSlice.prems(3) True None have ne: "xs \<noteq> [] \<or> s \<noteq> []" by auto
      note d = decodeBytes_encodeBytes [OF None len ne ty, of T]
      from t show ?thesis using d True None ex by cases simp_all
    next
      case (Some n)
      from VSlice.prems(3) Some True have ne: "n \<noteq> 0 \<or> s \<noteq> []" by auto
      note d = decodeBytes_encodeBytes_fixed [OF Some len ne ty, of T]
      from t show ?thesis using d True Some ex T by cases simp_all
    qed
  next
    case False
    show ?thesis
    proof (cases "tag_len tag")
      case None
      have "\<exists>enc. encodeElems no_methods \<sigma> xs = Inr enc \<and>
              decodeElems no_methods \<sigma>' (enc @ s) (replicate (length xs) (zero T))
                = (None, map expected xs, \<sigma>', s)"
      proof (rule elems_roundtrip)
        from elems
        show "list_all2 (\<lambda>x t. unshared t \<and> wt t \<and> type_of t = type_of x) xs
                (replicate (length xs) (zero T))"
          by (auto simp: list_all2_conv_all_nth list_all_iff)
      next
        from VSlice.prems(3) False None show "s \<noteq> [] \<or> ends_well_elems xs" by auto
      qed (rule IH, assumption+, rule NE, assumption+)
      then obtain enc where enc: "encodeElems no_methods \<sigma> xs = Inr enc"
        "decodeElems no_methods \<sigma>' (enc @ s) (replicate (length xs) (zero T))
           = (None, map expected xs, \<sigma>', s)"
        by auto
      from t show ?thesis
        using enc False len None
        by cases (simp_all add: encodeSlice_untagged read_count_untagged unat_of_nat32
                    del: encodeSlice.simps)
    next
      case (Some n)
      from VSlice.prems(2) Some have fit: "unat n \<le> length xs \<or> plain_scalar T" by simp
      have "\<exists>enc. encodeElems no_methods \<sigma> (fixed_run T xs n) = Inr enc \<and>
              decodeElems no_methods \<sigma>' (enc @ s) (replicate (unat n) (zero T))
                = (None, take (unat n) (map expected xs)
                           @ replicate (unat n - length xs) (zero T), \<sigma>', s)"
      proof (rule run_roundtrip [OF _ _ _ fit])
        from elems show "list_all (\<lambda>x. type_of x = T) xs" by (simp add: list_all_iff)
      next
        show "length (replicate (unat n) (zero T)) = unat n" by simp
      next
        show "list_all (\<lambda>t. unshared t \<and> wt t \<and> type_of t = T) (replicate (unat n) (zero T))"
          by (simp add: list_all_iff)
      next
        from VSlice.prems(3) False Some
        show "s \<noteq> [] \<or> ends_well_elems (take (unat n) xs)" by auto
      qed (rule IH, assumption+, rule NE, assumption+)
      then obtain enc where enc: "encodeElems no_methods \<sigma> (fixed_run T xs n) = Inr enc"
        "decodeElems no_methods \<sigma>' (enc @ s) (replicate (unat n) (zero T))
           = (None, take (unat n) (map expected xs)
                      @ replicate (unat n - length xs) (zero T), \<sigma>', s)"
        by auto
      from t show ?thesis
        using enc False len Some
        by cases (simp_all add: encodeSlice_fixed read_count_fixed fixed_run_def
                    del: encodeSlice.simps)
    qed
  qed
next
  case (VArray T xs)
  from VArray.prems(1) have len: "length xs < 2 ^ 32"
    and elems: "list_all (\<lambda>x. codable x \<and> type_of x = T) xs" by auto
  from VArray.prems(6) obtain ys where t: "t = VArray T ys" and ys: "length ys = length xs"
    by (auto elim: type_of_arrayE)
  from VArray.prems(5) t have wys: "list_all (\<lambda>y. wt y \<and> type_of y = T) ys" by simp
  from VArray.prems(4) t have uys: "list_all unshared ys" by simp
  have IH: "\<exists>enc. encodeField no_methods \<sigma> x [] = Inr enc \<and>
                  decodeField no_methods \<sigma>' (enc @ s) t [] = (None, expected x, \<sigma>', s)"
    if "x \<in> set xs" "s \<noteq> [] \<or> ends_well [] x" "unshared t" "wt t" "type_of t = type_of x"
    for x and s :: "byte list" and t
    using VArray.IH [of x "[]" s t] that elems
    by (auto simp: list_all_iff cut_untagged fits_untagged)
  have NE: "enc \<noteq> []"
    if "x \<in> set xs" "emits [] x" "encodeField no_methods \<sigma> x [] = Inr enc" for x enc
    using that elems emits_nonempty [of x "[]" no_methods \<sigma> enc]
    by (auto simp: list_all_iff fits_untagged)
  show ?case
  proof (cases "is_byte T")
    case True
    then have T: "T = TScalar KUint8" by (simp add: is_byte_def)
    from elems T have ty: "list_all (\<lambda>x. type_of x = TScalar KUint8) xs"
      by (simp add: list_all_iff)
    then have ex: "map expected xs = xs" by (rule expected_scalars)
    show ?thesis
    proof (cases "tag_len tag")
      case None
      from VArray.prems(3) True None have ne: "xs \<noteq> [] \<or> s \<noteq> []" by auto
      from decodeByteArray_encodeBytes [OF None len ne ty ys] True None ex t
      show ?thesis by simp
    next
      case (Some n)
      from VArray.prems(3) Some True have ne: "n \<noteq> 0 \<or> s \<noteq> []" by auto
      from decodeByteArray_encodeBytes_fixed [OF Some len ne ty ys] True Some ex t T
      show ?thesis by simp
    qed
  next
    case False
    show ?thesis
    proof (cases "tag_len tag")
      case None
      have "\<exists>enc. encodeElems no_methods \<sigma> xs = Inr enc \<and>
              decodeElems no_methods \<sigma>' (enc @ s) ys = (None, map expected xs, \<sigma>', s)"
      proof (rule elems_roundtrip)
        from elems wys uys ys
        show "list_all2 (\<lambda>x t. unshared t \<and> wt t \<and> type_of t = type_of x) xs ys"
          by (auto simp: list_all2_conv_all_nth list_all_iff)
      next
        from VArray.prems(3) False None show "s \<noteq> [] \<or> ends_well_elems xs" by auto
      qed (rule IH, assumption+, rule NE, assumption+)
      then obtain enc where enc: "encodeElems no_methods \<sigma> xs = Inr enc"
        "decodeElems no_methods \<sigma>' (enc @ s) ys = (None, map expected xs, \<sigma>', s)"
        by auto
      from len ys have fe: "fixed_elems T ys (of_nat (length xs)) = ys"
        by (intro fixed_elems_same) (simp_all add: unat_of_nat32)
      show ?thesis
        using enc False len t ys fe None
        by (simp add: encodeArray_untagged read_count_untagged unat_of_nat32
              del: encodeArray.simps)
    next
      case (Some n)
      from VArray.prems(2) Some have fit: "unat n \<le> length xs \<or> plain_scalar T" by simp
      from Some have tag: "parseTag tag = Inr n" by (simp add: tag_len_Some)
      let ?ts = "take (unat n) ys @ replicate (unat n - length ys) (zero T)"
      let ?res = "take (unat n) (map expected xs) @ replicate (unat n - length xs) (zero T)"
      have "\<exists>enc. encodeElems no_methods \<sigma> (fixed_run T xs n) = Inr enc \<and>
              decodeElems no_methods \<sigma>' (enc @ s) ?ts = (None, ?res, \<sigma>', s)"
      proof (rule run_roundtrip [OF _ _ _ fit])
        from elems show "list_all (\<lambda>x. type_of x = T) xs" by (simp add: list_all_iff)
      next
        show "length ?ts = unat n" by auto
      next
        from wys uys show "list_all (\<lambda>t. unshared t \<and> wt t \<and> type_of t = T) ?ts"
          by (auto simp: list_all_iff dest: in_set_takeD)
      next
        from VArray.prems(3) False Some
        show "s \<noteq> [] \<or> ends_well_elems (take (unat n) xs)" by auto
      qed (rule IH, assumption+, rule NE, assumption+)
      then obtain enc where enc: "encodeElems no_methods \<sigma> (fixed_run T xs n) = Inr enc"
        "decodeElems no_methods \<sigma>' (enc @ s) ?ts = (None, ?res, \<sigma>', s)"
        by auto
      from len ys have leny: "length ys < 2 ^ 32" by simp
      have r: "take (length ys) ?res @ replicate (length ys - unat n) (zero T)
                 = take (unat n) (map expected xs) @ replicate (length xs - unat n) (zero T)"
        using ys by (cases "unat n \<le> length xs") simp_all
      have "decodeArray no_methods \<sigma>' (enc @ s) T ys tag
              = (None, take (length ys) ?res @ replicate (length ys - unat n) (zero T), \<sigma>', s)"
        by (simp only: decodeArray_fixed [OF tag leny] enc(2) prod.case option.case)
      then have dec: "decodeArray no_methods \<sigma>' (enc @ s) T ys tag
                   = (None, take (unat n) (map expected xs)
                              @ replicate (length xs - unat n) (zero T), \<sigma>', s)"
        by (simp only: r)
      have "encodeArray no_methods \<sigma> T xs tag = Inr enc"
        using enc(1)
        by (simp add: encodeArray_fixed [OF Some len] fixed_run_def del: encodeArray.simps)
      with dec show ?thesis
        using False t Some by (simp del: encodeArray.simps decodeArray.simps)
    qed
  qed
next
  case (VStruct fs)
  from VStruct.prems(6) obtain gs where t: "t = VStruct gs"
    and gs: "map (\<lambda>gv. (fst gv, type_of (snd gv))) gs = map (\<lambda>fv. (fst fv, type_of (snd fv))) fs"
    by (auto elim: type_of_structE)
  have "\<exists>enc. encodeStruct no_methods \<sigma> fs = Inr enc \<and>
               decodeStruct no_methods \<sigma>' (enc @ s) gs
                 = (None, map (\<lambda>fv. (fst fv, cut (sf_tag (fst fv)) (expected (snd fv)))) fs,
                    \<sigma>', s)"
  proof (rule struct_roundtrip [where g = "\<lambda>f x. cut (sf_tag f) (expected x)"])
    fix f x and s :: "byte list" and t
    assume "(f, x) \<in> set fs" "s \<noteq> [] \<or> ends_well (sf_tag f) x" "unshared t"
      "wt t" "type_of t = type_of x"
    with VStruct.IH [of "(f, x)" x "sf_tag f" s t] VStruct.prems(1)
    show "\<exists>enc. encodeField no_methods \<sigma> x (sf_tag f) = Inr enc \<and>
                decodeField no_methods \<sigma>' (enc @ s) t (sf_tag f)
                  = (None, cut (sf_tag f) (expected x), \<sigma>', s)"
      by (auto simp: list_all_iff)
  next
    fix f x enc
    assume "(f, x) \<in> set fs" "emits (sf_tag f) x"
      "encodeField no_methods \<sigma> x (sf_tag f) = Inr enc"
    with VStruct.prems(1) emits_nonempty [of x "sf_tag f" no_methods \<sigma> enc]
    show "enc \<noteq> []" by (auto simp: list_all_iff)
  next
    from VStruct.prems(1)
    show "list_all (\<lambda>fv. sf_exported (fst fv) \<and> sf_tag (fst fv) \<noteq> ''-'') fs"
      by (auto simp: list_all_iff)
  next
    from gs [symmetric]
    have "list_all2 (\<lambda>fv gt. (fst fv, type_of (snd fv)) = (fst gt, type_of (snd gt))) fs gs"
      by (rule map_eq_list_all2)
    moreover from VStruct.prems(5) t have "\<forall>gt\<in>set gs. wt (snd gt)" by (simp add: list_all_iff)
    moreover from VStruct.prems(4) t have "\<forall>gt\<in>set gs. unshared (snd gt)"
      by (simp add: list_all_iff)
    ultimately
    show "list_all2 (\<lambda>fv gt. fst gt = fst fv \<and> unshared (snd gt) \<and> wt (snd gt) \<and>
                             type_of (snd gt) = type_of (snd fv)) fs gs"
      by (auto simp: list_all2_conv_all_nth)
  next
    from VStruct.prems(3) show "s \<noteq> [] \<or> ends_well_fields fs" by auto
  qed
  with t show ?case by auto
next
  case (VNilPtr T)
  then show ?case by simp
next
  case (VPtr x)
  from VPtr.prems(6) consider "t = VNilPtr (type_of x)"
    | y where "t = VPtr y" "type_of y = type_of x"
    | a where "t = VRef (type_of x) a"
    by (auto elim: type_of_ptrE)
  then show ?case
  proof cases
    case 1
    with VPtr.IH [of tag s "zero (type_of x)"] VPtr.prems show ?thesis by auto
  next
    case 2
    with VPtr.IH [of tag s y] VPtr.prems show ?thesis by auto
  next
    case 3
    with VPtr.prems(4) show ?thesis by simp
  qed
next
  case (VRef T a)
  then show ?case by simp
next
  case VOther
  then show ?case by simp
qed

section \<open>Values with pointers into the store\<close>

text \<open>
  The encoder reads a value through its pointers only, so it cannot tell a value from the
  value with its pointers followed: in a program without custom codecs, the encoding of
  \<open>v\<close> in a store is the encoding of \<^term>\<open>deep \<sigma> v\<close> (in any store).
\<close>

lemma type_of_load [simp]: "type_of (load \<sigma> T a) = T"
  by (simp add: load_def split: option.splits)

lemma wt_load [simp]: "wt (load \<sigma> T a)"
  by (simp add: load_def split: option.splits)

lemma deep_zero [simp]: "deep \<sigma> (zero T) = zero T"
proof (induction T rule: zero.induct)
  case (5 fs)
  then have "map (\<lambda>ft. (fst ft, deep \<sigma> (zero (snd ft)))) fs = map (\<lambda>ft. (fst ft, zero (snd ft))) fs"
    by (intro map_cong) auto
  then show ?case by (simp add: comp_def)
qed simp_all

lemma type_of_deep [simp]: "type_of (deep \<sigma> v) = type_of v"
proof (induction \<sigma> v rule: deep.induct)
  case (3 \<sigma> fs)
  then have "map (\<lambda>fv. (fst fv, type_of (deep \<sigma> (snd fv)))) fs
               = map (\<lambda>fv. (fst fv, type_of (snd fv))) fs"
    by (intro map_cong) auto
  then show ?case by (simp add: comp_def)
qed simp_all

lemma bytes_of_deep [simp]: "bytes_of (map (deep \<sigma>) xs) = bytes_of xs"
proof -
  have "(case deep \<sigma> v of VScalar (SUint8 b) \<Rightarrow> b | _ \<Rightarrow> 0)
          = (case v of VScalar (SUint8 b) \<Rightarrow> b | _ \<Rightarrow> 0)" for v
    by (cases v) simp_all
  then show ?thesis by (simp add: bytes_of_def comp_def)
qed

lemma fixed_elems_deep:
  "fixed_elems T (map (deep \<sigma>) xs) len = map (deep \<sigma>) (fixed_elems T xs len)"
proof -
  have "unat (of_nat (length xs) :: 32 word) \<le> length xs"
    by (simp add: unat_of_nat)
  then show ?thesis by (auto simp: fixed_elems_def)
qed

lemma encode_deep:
  assumes "\<And>v. MarshalBinary M v = None"
  shows "encodeField M \<sigma> v tag = encodeField M \<sigma>' (deep \<sigma> v) tag"
    and "encodeStruct M \<sigma> fs = encodeStruct M \<sigma>' (map (\<lambda>fv. (fst fv, deep \<sigma> (snd fv))) fs)"
    and "encodeSlice M \<sigma> T xs tag = encodeSlice M \<sigma>' T (map (deep \<sigma>) xs) tag"
    and "encodeArray M \<sigma> T' ys tag' = encodeArray M \<sigma>' T' (map (deep \<sigma>) ys) tag'"
    and "encodeElems M \<sigma> zs = encodeElems M \<sigma>' (map (deep \<sigma>) zs)"
  using assms
proof (induction M \<sigma> v tag and M \<sigma> fs and M \<sigma> T xs tag and M \<sigma> T' ys tag' and M \<sigma> zs
       rule: encodeField_encodeStruct_encodeSlice_encodeArray_encodeElems.induct)
  case (12 M \<sigma> f v rest)
  then show ?case by (simp split: sum.splits)
next
  case (13 M \<sigma> T xs tag)
  then show ?case by (simp add: fixed_elems_deep take_map split: sum.splits)
next
  case (14 M \<sigma> T xs tag)
  then show ?case by (simp add: fixed_elems_deep take_map split: sum.splits)
next
  case (16 M \<sigma> x xs)
  then show ?case by (simp split: sum.splits)
qed simp_all

text \<open>
  A target with two pointers to one variable: the decoder writes the variable twice, and
  both pointers then show what was written last.  The bytes are the encoding of
  \<^verbatim>\<open>struct{P, Q *uint16}\<close> with \<open>*P = 1\<close> and \<open>*Q = 2\<close>.
\<close>

lemma shared_target:
  "Marshal no_methods no_variables
     (two_pointers (VPtr (VScalar (SUint16 1))) (VPtr (VScalar (SUint16 2)))) = Inr [1, 0, 2, 0]"
  "Unmarshal no_methods (one_uint16 0) [1, 0, 2, 0]
     (VPtr (two_pointers (VRef (TScalar KUint16) 0) (VRef (TScalar KUint16) 0)))
   = (None, VPtr (two_pointers (VRef (TScalar KUint16) 0) (VRef (TScalar KUint16) 0)),
      one_uint16 2)"
  "deep (one_uint16 2) (two_pointers (VRef (TScalar KUint16) 0) (VRef (TScalar KUint16) 0))
   = two_pointers (VPtr (VScalar (SUint16 2))) (VPtr (VScalar (SUint16 2)))"
  by (simp_all add: Marshal_def Unmarshal_def UnmarshalPartial_def no_methods_def
        two_pointers_def one_uint16_def no_variables_def load_def binary_Read_def ReadFull_def
        le_word_def le_bytes_def upt_rec)

section \<open>Nil slices\<close>

text \<open>
  A nil slice whose elements are not bytes is written as the zero count, like the empty
  slice, and the zero count is decoded to the empty, non-nil slice.
\<close>

lemma nil_slice_generic:
  assumes "\<not> is_byte T"
  shows "encodeField M \<sigma> (VNilSlice T) [] = Inr [0, 0, 0, 0]"
    and "encodeField M \<sigma> (VSlice T []) [] = Inr [0, 0, 0, 0]"
    and "decodeField M \<sigma> ([0, 0, 0, 0] @ rest) (VNilSlice T) [] = (None, VSlice T [], \<sigma>, rest)"
  using assms
  by (simp_all add: read_count_def Read_uint32_def ReadFull_def le_word_def Write_uint32_def
        le_bytes_def upt_rec)

section \<open>Excluded fields\<close>

text \<open>
  A field tagged \<^verbatim>\<open>-\<close> whose type has no custom codec is passed over by both loops; the
  fields before and after it are processed as if it were not there.
\<close>

lemma decodeStruct_excluded:
  assumes "sf_tag f = ''-''" "\<not> is_struct v \<or> UnmarshalBinary M (VPtr v) = None"
  shows "decodeStruct M \<sigma> r (fs1 @ (f, v) # fs2) =
           (case decodeStruct M \<sigma> r (fs1 @ fs2) of
              (e, fs', \<sigma>', r') \<Rightarrow>
                (e, take (length fs1) fs' @ (f, v) # drop (length fs1) fs', \<sigma>', r'))"
proof (induction fs1 arbitrary: r \<sigma>)
  case Nil
  from assms show ?case by (auto split: prod.splits)
next
  case (Cons gw fs1)
  obtain g w where gw: "gw = (g, w)" by (cases gw)
  show ?case
    unfolding gw
    by (simp add: Cons.IH split: prod.splits option.splits sum.splits)
qed

lemma encodeStruct_excluded:
  assumes "sf_tag f = ''-''" "MarshalBinary M v = None"
  shows "encodeStruct M \<sigma> (fs1 @ (f, v) # fs2) = encodeStruct M \<sigma> (fs1 @ fs2)"
proof (induction fs1)
  case Nil
  from assms show ?case by simp
next
  case (Cons gw fs1)
  obtain g w where gw: "gw = (g, w)" by (cases gw)
  show ?case unfolding gw by (simp add: Cons.IH split: option.splits sum.splits)
qed

section \<open>Fixed-length loops\<close>

text \<open>
  The loop over elements is \<^const>\<open>encodings\<close>; and on a sequence of fewer than \<open>2^32\<close>
  elements the elements that the code's fixed-length loop visits are the spec's.
\<close>

lemma encodeElems_encodings: "encodeElems M \<sigma> es = encodings M \<sigma> es"
proof (induction es)
  case Nil
  show ?case by (simp add: encodings_def)
next
  case (Cons e es)
  show ?case
  proof (cases "encodeField M \<sigma> e []")
    case (Inl err)
    then show ?thesis by (simp add: encodings_def)
  next
    case (Inr out)
    with Cons show ?thesis by (auto simp: encodings_def split: option.splits sum.splits)
  qed
qed

lemma fixed_elems_fixed_run:
  "length xs < 2 ^ 32 \<Longrightarrow> fixed_elems T xs n = fixed_run T xs n"
  by (simp add: fixed_elems_eq fixed_run_def)


section \<open>Payloads that come up short\<close>

text \<open>
  What the untagged string decode does on every input: it fails when the prefix is not
  complete and when nothing at all follows the prefix (even for the length zero); in every
  other case it succeeds, taking what is there and filling up with zero bytes.
\<close>

lemma Read_uint32_cases:
  "Read_uint32 r =
     (if 4 \<le> length r then (Inr (le_word (take 4 r)), drop 4 r)
      else if r = [] then (Inl EOF, []) else (Inl ErrUnexpectedEOF, []))"
  by (simp add: Read_uint32_def ReadFull_def)

lemma read_payload_untagged_cases:
  assumes "tag_len tag = None"
  shows "read_payload r tag =
     (if length r < 4 then (Inl (if r = [] then EOF else ErrUnexpectedEOF), [])
      else if length r = 4 then (Inl EOF, [])
      else (Inr (False, take (unat (le_word (take 4 r) :: 32 word)) (drop 4 r)
                        @ replicate (unat (le_word (take 4 r) :: 32 word) - (length r - 4)) 0),
            drop (unat (le_word (take 4 r) :: 32 word)) (drop 4 r)))"
  using tag_len_NoneD [OF assms]
  by (auto simp: read_payload_def Read_uint32_cases Reader_Read_def)

lemma decodeString_untagged_cases:
  assumes "tag_len tag = None"
  shows "decodeString r old tag =
     (if length r < 4 then (Some (if r = [] then EOF else ErrUnexpectedEOF), old, [])
      else if length r = 4 then (Some EOF, old, [])
      else (None, take (unat (le_word (take 4 r) :: 32 word)) (drop 4 r)
                    @ replicate (unat (le_word (take 4 r) :: 32 word) - (length r - 4)) 0,
            drop (unat (le_word (take 4 r) :: 32 word)) (drop 4 r)))"
  by (simp add: decodeString_def read_payload_untagged_cases [OF assms])

section \<open>Claims\<close>

text \<open>
  C1.  The claim: decoding the encoding of any value of a supported kind, with no length
  tags, gives the value back (and the value cut to its tag where a fixed tag is narrower).
  As stated it fails, and by design: a struct's unexported field is skipped on both paths,
  so the decoded struct holds the target's old value of it; a nil slice is written as a
  zero count and comes back as an empty, non-nil slice; a nil pointer is refused by
  \<^verbatim>\<open>encodeField\<close>.
\<close>

theorem marshal_unmarshal_roundtrip_counterexample:
  "Marshal no_methods no_variables (VStruct [(StructField ''a'' False [], VScalar (SUint8 5))])
     = Inr [] \<and>
   Unmarshal no_methods no_variables []
       (VPtr (VStruct [(StructField ''a'' False [], VScalar (SUint8 0))]))
     = (None, VPtr (VStruct [(StructField ''a'' False [], VScalar (SUint8 0))]), no_variables) \<and>
   Marshal no_methods no_variables (VNilSlice (TScalar KUint32)) = Inr [0, 0, 0, 0] \<and>
   Unmarshal no_methods no_variables [0, 0, 0, 0] (VPtr (VNilSlice (TScalar KUint32)))
     = (None, VPtr (VSlice (TScalar KUint32) []), no_variables) \<and>
   Marshal no_methods no_variables (VNilPtr (TScalar KUint32))
     = Inl (Wrapped ''error marshaling value'' NilPointer)"
  by (simp add: Marshal_def Unmarshal_def UnmarshalPartial_def no_methods_def is_byte_def
        read_count_def Read_uint32_def ReadFull_def le_word_def Write_uint32_def le_bytes_def
        upt_rec)

text \<open>
  C1, as amended.  In a program without \<^verbatim>\<open>MarshalBinary\<close>/\<^verbatim>\<open>UnmarshalBinary\<close> methods, take
  a value \<open>v\<close> that, its pointers followed, is \<^const>\<open>codable\<close> and in which every empty
  payload (of an empty string or byte sequence, or of one with the fixed length zero) is
  followed by a field or element whose encoding is not empty (\<^const>\<open>ends_well\<close>), and a
  well-typed target of \<open>v\<close>'s type in which every pointer is nil or refers to a variable
  that nothing else refers to (\<^const>\<open>unshared\<close>).  Then \<^verbatim>\<open>Marshal\<close> succeeds, and \<^verbatim>\<open>Unmarshal\<close>
  of its output into a pointer to the target succeeds, changes no other variable, and
  leaves in the target \<open>v\<close> with each field that has a length tag cut to the tag
  (\<^const>\<open>expected\<close>): a string to its first \<open>n\<close> bytes less their trailing zero bytes, a
  slice to its first \<open>n\<close> elements, filled up to \<open>n\<close> with zero values when it has
  fewer, an array to its first \<open>n\<close> elements followed by zero values.  Where no field has
  a length tag this is \<open>v\<close> itself.  (On a target with two pointers to one variable the
  decoder writes that variable twice: lemma \<open>shared_target\<close>.)
\<close>

theorem marshal_unmarshal_roundtrip:
  assumes "codable (deep \<sigma> v)" "ends_well [] (deep \<sigma> v)"
    "unshared target" "wt target" "type_of target = type_of v"
  shows "(\<exists>data. Marshal no_methods \<sigma> v = Inr data \<and>
                 Unmarshal no_methods \<sigma> data (VPtr target)
                   = (None, VPtr (expected (deep \<sigma> v)), \<sigma>)) \<and>
         (no_length_tags (deep \<sigma> v) \<longrightarrow> expected (deep \<sigma> v) = deep \<sigma> v)"
proof -
  have d: "encodeField no_methods \<sigma> v [] = encodeField no_methods \<sigma> (deep \<sigma> v) []"
    by (rule encode_deep(1)) (simp add: no_methods_def)
  have "fits [] (deep \<sigma> v)" "cut [] (expected (deep \<sigma> v)) = expected (deep \<sigma> v)"
    by (simp_all add: fits_untagged cut_untagged)
  with field_roundtrip [of "deep \<sigma> v" "[]" "[]" target \<sigma> \<sigma>] assms obtain enc where
    "encodeField no_methods \<sigma> (deep \<sigma> v) [] = Inr enc"
    "decodeField no_methods \<sigma> enc target [] = (None, expected (deep \<sigma> v), \<sigma>, [])"
    by auto
  with d show ?thesis
    by (simp add: Marshal_def Unmarshal_def UnmarshalPartial_def no_methods_def
          expected_untagged)
qed

theorem marshal_unmarshal_roundtrip_witness:
  "codable (deep no_variables tagged_name) \<and> ends_well [] (deep no_variables tagged_name) \<and>
   unshared (zero (type_of tagged_name)) \<and> wt (zero (type_of tagged_name)) \<and>
   type_of (zero (type_of tagged_name)) = type_of tagged_name \<and>
   (\<exists>data. Marshal no_methods no_variables tagged_name = Inr data \<and>
      Unmarshal no_methods no_variables data (VPtr (zero (type_of tagged_name)))
        = (None, VPtr (VStruct
             [(StructField ''Number'' True [], VScalar (SUint32 42)),
              (StructField ''Name'' True ''3'', VString [104, 101, 108])]), no_variables)) \<and>
   codable (deep no_variables empty_name) \<and> ends_well [] (deep no_variables empty_name) \<and>
   no_length_tags (deep no_variables empty_name) \<and>
   unshared (zero (type_of empty_name)) \<and> wt (zero (type_of empty_name)) \<and>
   type_of (zero (type_of empty_name)) = type_of empty_name \<and>
   (\<exists>data. Marshal no_methods no_variables empty_name = Inr data \<and> length data = 5 \<and>
      Unmarshal no_methods no_variables data (VPtr (zero (type_of empty_name)))
        = (None, VPtr empty_name, no_variables)) \<and>
   codable (deep (one_uint16 258)
      (two_pointers (VRef (TScalar KUint16) 0) (VRef (TScalar KUint16) 0))) \<and>
   ends_well [] (deep (one_uint16 258)
      (two_pointers (VRef (TScalar KUint16) 0) (VRef (TScalar KUint16) 0))) \<and>
   unshared (two_pointers (VNilPtr (TScalar KUint16)) (VPtr (VScalar (SUint16 7)))) \<and>
   wt (two_pointers (VNilPtr (TScalar KUint16)) (VPtr (VScalar (SUint16 7)))) \<and>
   type_of (two_pointers (VNilPtr (TScalar KUint16)) (VPtr (VScalar (SUint16 7))))
     = type_of (two_pointers (VRef (TScalar KUint16) 0) (VRef (TScalar KUint16) 0)) \<and>
   (\<exists>data. Marshal no_methods (one_uint16 258)
              (two_pointers (VRef (TScalar KUint16) 0) (VRef (TScalar KUint16) 0)) = Inr data \<and>
      Unmarshal no_methods (one_uint16 258) data
          (VPtr (two_pointers (VNilPtr (TScalar KUint16)) (VPtr (VScalar (SUint16 7)))))
        = (None, VPtr (two_pointers (VPtr (VScalar (SUint16 258))) (VPtr (VScalar (SUint16 258)))),
           one_uint16 258)) \<and>
   codable (deep no_variables wide_tags) \<and> ends_well [] (deep no_variables wide_tags) \<and>
   unshared (zero (type_of wide_tags)) \<and> wt (zero (type_of wide_tags)) \<and>
   type_of (zero (type_of wide_tags)) = type_of wide_tags \<and>
   (\<exists>data. Marshal no_methods no_variables wide_tags = Inr data \<and>
      Unmarshal no_methods no_variables data (VPtr (zero (type_of wide_tags)))
        = (None, VPtr (VStruct
             [(StructField ''Name'' True ''4'', VString [104, 105]),
              (StructField ''Numbers'' True ''3'',
               VSlice (TScalar KUint32)
                 [VScalar (SUint32 7), VScalar (SUint32 0), VScalar (SUint32 0)])]),
           no_variables))"
proof -
  have tag: "tag_len ''3'' = Some 3" "tag_len ''4'' = Some 4" "tag_len [] = None"
    by (simp_all add: tag_len_def parseTag_def ParseUint_def is_digit_def)
  have 4: "codable (deep no_variables wide_tags)" "ends_well [] (deep no_variables wide_tags)"
      "unshared (zero (type_of wide_tags))" "wt (zero (type_of wide_tags))"
      "type_of (zero (type_of wide_tags)) = type_of wide_tags"
    by (simp_all add: wide_tags_def tag is_byte_def)
  have u: "unat (3 :: 32 word) = Suc (Suc (Suc 0))" "unat (4 :: 32 word) = Suc (Suc (Suc (Suc 0)))"
    by simp_all
  have r2: "replicate 2 x = [x, x]" for x :: val
    by (simp add: numeral_2_eq_2)
  have e4: "expected (deep no_variables wide_tags) = VStruct
             [(StructField ''Name'' True ''4'', VString [104, 105]),
              (StructField ''Numbers'' True ''3'',
               VSlice (TScalar KUint32)
                 [VScalar (SUint32 7), VScalar (SUint32 0), VScalar (SUint32 0)])]"
    by (simp add: wide_tags_def tag TrimRight0_def u r2)
  have 1: "codable (deep no_variables tagged_name)" "ends_well [] (deep no_variables tagged_name)"
      "unshared (zero (type_of tagged_name))" "wt (zero (type_of tagged_name))"
      "type_of (zero (type_of tagged_name)) = type_of tagged_name"
    by (simp_all add: tagged_name_def tag)
  have 2: "codable (deep no_variables empty_name)" "ends_well [] (deep no_variables empty_name)"
      "unshared (zero (type_of empty_name))" "wt (zero (type_of empty_name))"
      "type_of (zero (type_of empty_name)) = type_of empty_name"
    and n2: "no_length_tags (deep no_variables empty_name)"
    and d2: "deep no_variables empty_name = empty_name"
    by (simp_all add: empty_name_def tag)
  have d3: "deep (one_uint16 258)
              (two_pointers (VRef (TScalar KUint16) 0) (VRef (TScalar KUint16) 0))
            = two_pointers (VPtr (VScalar (SUint16 258))) (VPtr (VScalar (SUint16 258)))"
    by (simp add: two_pointers_def one_uint16_def load_def)
  have 3: "codable (deep (one_uint16 258)
              (two_pointers (VRef (TScalar KUint16) 0) (VRef (TScalar KUint16) 0)))"
      "ends_well [] (deep (one_uint16 258)
              (two_pointers (VRef (TScalar KUint16) 0) (VRef (TScalar KUint16) 0)))"
      "unshared (two_pointers (VNilPtr (TScalar KUint16)) (VPtr (VScalar (SUint16 7))))"
      "wt (two_pointers (VNilPtr (TScalar KUint16)) (VPtr (VScalar (SUint16 7))))"
      "type_of (two_pointers (VNilPtr (TScalar KUint16)) (VPtr (VScalar (SUint16 7))))
         = type_of (two_pointers (VRef (TScalar KUint16) 0) (VRef (TScalar KUint16) 0))"
    unfolding d3 by (simp_all add: two_pointers_def tag)
  have e1: "expected (deep no_variables tagged_name) = VStruct
             [(StructField ''Number'' True [], VScalar (SUint32 42)),
              (StructField ''Name'' True ''3'', VString [104, 101, 108])]"
    by (simp add: tagged_name_def tag TrimRight0_def)
  have e3: "expected (two_pointers (VPtr (VScalar (SUint16 258))) (VPtr (VScalar (SUint16 258))))
              = two_pointers (VPtr (VScalar (SUint16 258))) (VPtr (VScalar (SUint16 258)))"
    by (simp add: two_pointers_def tag)
  have l2: "\<exists>out. Marshal no_methods no_variables empty_name = Inr out \<and> length out = 5"
    by (simp add: empty_name_def Marshal_def no_methods_def encodeString_def)
  from marshal_unmarshal_roundtrip [OF 1] marshal_unmarshal_roundtrip [OF 2]
    marshal_unmarshal_roundtrip [OF 3] marshal_unmarshal_roundtrip [OF 4]
    1 2 3 4 n2 d2 d3 e1 e3 e4 l2
  show ?thesis by auto
qed

text \<open>
  C2.  The claim: for any value and any suffix \<open>s\<close>, \<^verbatim>\<open>UnmarshalPartial\<close> of the encoding
  followed by \<open>s\<close> restores the value and reports \<open>len(s)\<close> remaining bytes, and \<^verbatim>\<open>Unmarshal\<close>
  rejects a non-empty \<open>s\<close>.  As stated it fails, by design, when the target has the
  self-decode capability: the whole input goes to \<^verbatim>\<open>UnmarshalBinary\<close>, zero bytes are reported
  as remaining and the strict \<^verbatim>\<open>Unmarshal\<close> accepts the trailing bytes.
\<close>

theorem partial_decode_counterexample:
  "Marshal test_methods no_variables (CustomType [116, 101, 115, 116])
     = Inr [99, 117, 115, 116, 111, 109, 58, 116, 101, 115, 116] \<and>
   UnmarshalPartial test_methods no_variables
       ([99, 117, 115, 116, 111, 109, 58, 116, 101, 115, 116] @ [1, 2]) (VPtr (CustomType []))
     = (0, None, VPtr (CustomType [116, 101, 115, 116, 1, 2]), no_variables) \<and>
   Unmarshal test_methods no_variables
       ([99, 117, 115, 116, 111, 109, 58, 116, 101, 115, 116] @ [1, 2]) (VPtr (CustomType []))
     = (None, VPtr (CustomType [116, 101, 115, 116, 1, 2]), no_variables) \<and>
   (0 :: nat) \<noteq> length [1 :: byte, 2]"
  by (simp add: Marshal_def Unmarshal_def UnmarshalPartial_def test_methods_def
        CustomType_MarshalBinary_ptr_def CustomType_UnmarshalBinary_ptr_def CustomType_def
        CustomType_type_def custom_prefix_def)

text \<open>
  C2, as amended.  In a program without custom codec methods, for every value \<open>v\<close> that is
  \<^const>\<open>codable\<close> (its pointers followed) and every well-typed target of its type in which
  every pointer is nil or refers to a variable that nothing else refers to: \<^verbatim>\<open>Marshal\<close>
  succeeds; followed by a non-empty suffix \<open>s\<close>, its output is decoded by \<^verbatim>\<open>UnmarshalPartial\<close>
  with \<open>len(s)\<close> bytes remaining and refused by \<^verbatim>\<open>Unmarshal\<close> with the trailing-data error;
  alone, it is decoded by both with nothing remaining when every empty payload inside \<open>v\<close>
  is followed by a field or element whose encoding is not empty.  In each case the target
  then holds \<open>v\<close> with its tagged fields cut to their tags, which is \<open>v\<close> itself when no
  field has a length tag, and no other variable has changed.
\<close>

theorem partial_decode_accounting:
  assumes "codable (deep \<sigma> v)" "unshared target" "wt target" "type_of target = type_of v"
  shows "(\<exists>data. Marshal no_methods \<sigma> v = Inr data \<and>
           (s \<noteq> [] \<longrightarrow>
              UnmarshalPartial no_methods \<sigma> (data @ s) (VPtr target)
                = (length s, None, VPtr (expected (deep \<sigma> v)), \<sigma>) \<and>
              Unmarshal no_methods \<sigma> (data @ s) (VPtr target)
                = (Some (TrailingData (length s)), VPtr (expected (deep \<sigma> v)), \<sigma>)) \<and>
           (ends_well [] (deep \<sigma> v) \<longrightarrow>
              UnmarshalPartial no_methods \<sigma> data (VPtr target)
                = (0, None, VPtr (expected (deep \<sigma> v)), \<sigma>) \<and>
              Unmarshal no_methods \<sigma> data (VPtr target)
                = (None, VPtr (expected (deep \<sigma> v)), \<sigma>))) \<and>
         (no_length_tags (deep \<sigma> v) \<longrightarrow> expected (deep \<sigma> v) = deep \<sigma> v)"
proof -
  have d: "encodeField no_methods \<sigma> v [] = encodeField no_methods \<sigma> (deep \<sigma> v) []"
    by (rule encode_deep(1)) (simp add: no_methods_def)
  have u: "fits [] (deep \<sigma> v)" "cut [] (expected (deep \<sigma> v)) = expected (deep \<sigma> v)"
    by (simp_all add: fits_untagged cut_untagged)
  from assms u obtain enc where enc: "encodeField no_methods \<sigma> (deep \<sigma> v) [] = Inr enc"
    using field_roundtrip [of "deep \<sigma> v" "[]" "[0]" target \<sigma> \<sigma>] by auto
  have 1: "decodeField no_methods \<sigma> (enc @ s) target [] = (None, expected (deep \<sigma> v), \<sigma>, s)"
    if "s \<noteq> []"
    using field_roundtrip [of "deep \<sigma> v" "[]" s target \<sigma> \<sigma>] assms u that enc by auto
  have 2: "decodeField no_methods \<sigma> enc target [] = (None, expected (deep \<sigma> v), \<sigma>, [])"
    if "ends_well [] (deep \<sigma> v)"
    using field_roundtrip [of "deep \<sigma> v" "[]" "[]" target \<sigma> \<sigma>] assms u that enc by auto
  from enc d 1 2 show ?thesis
    by (auto simp: Marshal_def Unmarshal_def UnmarshalPartial_def no_methods_def
          expected_untagged)
qed

theorem partial_decode_accounting_witness:
  "codable (deep no_variables int_and_string) \<and> unshared (zero (type_of int_and_string)) \<and>
   wt (zero (type_of int_and_string)) \<and>
   type_of (zero (type_of int_and_string)) = type_of int_and_string \<and>
   [255, 238, 221, 204] \<noteq> ([] :: byte list) \<and>
   ends_well [] (deep no_variables int_and_string) \<and>
   no_length_tags (deep no_variables int_and_string) \<and>
   (\<exists>data. Marshal no_methods no_variables int_and_string = Inr data \<and>
      UnmarshalPartial no_methods no_variables (data @ [255, 238, 221, 204])
          (VPtr (zero (type_of int_and_string)))
        = (4, None, VPtr int_and_string, no_variables) \<and>
      Unmarshal no_methods no_variables (data @ [255, 238, 221, 204])
          (VPtr (zero (type_of int_and_string)))
        = (Some (TrailingData 4), VPtr int_and_string, no_variables) \<and>
      UnmarshalPartial no_methods no_variables data (VPtr (zero (type_of int_and_string)))
        = (0, None, VPtr int_and_string, no_variables) \<and>
      Unmarshal no_methods no_variables data (VPtr (zero (type_of int_and_string)))
        = (None, VPtr int_and_string, no_variables))"
proof -
  have tag: "tag_len [] = None" by simp
  have h: "codable (deep no_variables int_and_string)" "unshared (zero (type_of int_and_string))"
      "wt (zero (type_of int_and_string))"
      "type_of (zero (type_of int_and_string)) = type_of int_and_string"
    and p: "ends_well [] (deep no_variables int_and_string)"
    and n: "no_length_tags (deep no_variables int_and_string)"
    and d: "deep no_variables int_and_string = int_and_string"
    by (simp_all add: int_and_string_def)
  have s: "[255, 238, 221, 204] \<noteq> ([] :: byte list)"
    "length [255 :: byte, 238, 221, 204] = 4" by simp_all
  from partial_decode_accounting [OF h, of "[255, 238, 221, 204]"] h p n d s show ?thesis
    by auto
qed

text \<open>
  C3.  Every primitive scalar type, booleans included, is encoded as its fixed-width
  little-endian bytes and decoded from exactly that many bytes, failing only when too few
  remain.  The decoder's \<^verbatim>\<open>switch\<close> has no case for \<^verbatim>\<open>reflect.Bool\<close> (the encoder's has):
  a boolean is encoded as one byte and can never be decoded.  The theorem evaluates both
  directions: the byte that \<^verbatim>\<open>Marshal(true)\<close> produces is refused by \<^verbatim>\<open>Unmarshal\<close> into a
  \<^verbatim>\<open>*bool\<close> with "unsupported type", whatever the reader holds.
\<close>

theorem bool_encoded_but_not_decoded:
  "Marshal no_methods \<sigma> (VScalar (SBool True)) = Inr [1] \<and>
   Unmarshal no_methods \<sigma> [1] (VPtr (VScalar (SBool False)))
     = (Some (Wrapped ''error unmarshaling value'' UnsupportedType),
        VPtr (VScalar (SBool False)), \<sigma>) \<and>
   (\<forall>M r b tag. decodeField M \<sigma> r (VScalar (SBool b)) tag
                  = (Some UnsupportedType, VScalar (SBool b), \<sigma>, r))"
  by (simp add: Marshal_def Unmarshal_def UnmarshalPartial_def no_methods_def)

text \<open>
  C4.  An untagged string or byte-sequence field is decoded from a 4-byte length prefix
  \<open>L\<close> and \<open>L\<close> payload bytes, and the decode fails with an insufficient-data error
  whenever fewer than \<open>L\<close> bytes follow the prefix.  The code calls \<^verbatim>\<open>buf.Read(data)\<close> once
  and looks at the error only, so a payload cut short is accepted: here the prefix
  announces 5 bytes, 2 follow, and both \<^verbatim>\<open>decodeString\<close> and \<^verbatim>\<open>decodeBytes\<close> succeed with the
  2 bytes followed by 3 zero bytes.  (Lemma \<open>decodeString_untagged_cases\<close> above gives the
  outcome on every input.)
\<close>

theorem short_payload_accepted:
  "decodeString [5, 0, 0, 0, 97, 98] old [] = (None, [97, 98, 0, 0, 0], []) \<and>
   decodeBytes [5, 0, 0, 0, 97, 98] (TScalar KUint8) (VNilSlice (TScalar KUint8)) []
     = (None, VSlice (TScalar KUint8) (byte_vals [97, 98, 0, 0, 0]), []) \<and>
   Unmarshal no_methods \<sigma> [5, 0, 0, 0, 97, 98] (VPtr (VString []))
     = (None, VPtr (VString [97, 98, 0, 0, 0]), \<sigma>)"
  by (simp add: Unmarshal_def UnmarshalPartial_def no_methods_def decodeString_def
        decodeBytes_def read_payload_def Read_uint32_def ReadFull_def Reader_Read_def
        le_word_def replicate_numeral)

text \<open>
  C5.  A string or byte-sequence field tagged \<open>Fixed(n)\<close> is written as exactly \<open>n\<close> bytes
  and decoded by reading exactly \<open>n\<close> bytes (lemmas \<open>encodeString_fixed\<close>,
  \<open>decodeString_fixed\<close> and \<open>decodeBytes_fixed\<close> above, for a reader that holds them).  The
  read is one \<^verbatim>\<open>buf.Read(data)\<close> whose count is ignored: with the tag \<^verbatim>\<open>5\<close> and two bytes
  left, decoding succeeds on the two bytes; and with the tag \<^verbatim>\<open>0\<close> the zero bytes that
  \<^verbatim>\<open>Marshal\<close> wrote are refused by \<^verbatim>\<open>Unmarshal\<close> with \<^verbatim>\<open>io.EOF\<close>.
\<close>

theorem fixed_decode_short_or_empty:
  "decodeString [97, 98] old ''5'' = (None, [97, 98], []) \<and>
   decodeBytes [97, 98] (TScalar KUint8) (VNilSlice (TScalar KUint8)) ''5''
     = (None, VSlice (TScalar KUint8) (byte_vals [97, 98, 0, 0, 0]), []) \<and>
   Marshal no_methods \<sigma> (VStruct [(StructField ''A'' True ''0'', VString [])]) = Inr [] \<and>
   Unmarshal no_methods \<sigma> [] (VPtr (VStruct [(StructField ''A'' True ''0'', VString [])]))
     = (Some (Wrapped ''error unmarshaling value'' (Wrapped ''error decoding field A'' EOF)),
        VPtr (VStruct [(StructField ''A'' True ''0'', VString [])]), \<sigma>)"
  by (simp add: decodeString_def decodeBytes_def read_payload_def Reader_Read_def parseTag_5
        parseTag_0 TrimRight0_def replicate_numeral Marshal_def Unmarshal_def
        UnmarshalPartial_def no_methods_def encodeString_def)

text \<open>
  C6.  The claim: a slice or array whose elements are not bytes, tagged \<open>Fixed(n)\<close>, is
  written as exactly \<open>n\<close> elements, its own first \<open>min(n, len)\<close> and then zero values of the
  element type.  As stated it fails, by design, when the zero value of the element type
  cannot be encoded: the zero value of a pointer type is the nil pointer, which
  \<^verbatim>\<open>encodeField\<close> refuses, so a slice of one pointer tagged \<^verbatim>\<open>2\<close> is not written as two
  elements but makes \<^verbatim>\<open>Marshal\<close> fail.  (And the loops compare the index with
  \<^verbatim>\<open>uint32(slice.Len())\<close>, which is 0 for a sequence of \<open>2^32\<close> elements: zero values are
  written in place of its elements.)
\<close>

theorem fixed_sequence_counterexample:
  "encodeField no_methods no_variables (VPtr (VScalar (SUint16 7))) [] = Inr [7, 0] \<and>
   encodeSlice no_methods no_variables (TPtr (TScalar KUint16)) [VPtr (VScalar (SUint16 7))] ''2''
     = Inl NilPointer \<and>
   Marshal no_methods no_variables
     (VStruct [(StructField ''Ptrs'' True ''2'',
                VSlice (TPtr (TScalar KUint16)) [VPtr (VScalar (SUint16 7))])])
     = Inl (Wrapped ''error marshaling value'' (Wrapped ''error encoding field Ptrs'' NilPointer)) \<and>
   encodeSlice no_methods no_variables (TScalar KUint16)
       (replicate (2 ^ 32) (VScalar (SUint16 7))) ''1''
     = Inr [0, 0]"
proof -
  have tag: "parseTag ''2'' = Inr 2" "parseTag ''1'' = Inr 1"
    by (simp_all add: parseTag_def ParseUint_def is_digit_def)
  have f2: "fixed_elems (TPtr (TScalar KUint16)) [VPtr (VScalar (SUint16 7))] 2
              = [VPtr (VScalar (SUint16 7)), VNilPtr (TScalar KUint16)]"
    by (simp add: fixed_elems_def upt_rec)
  have f1: "fixed_elems (TScalar KUint16) (replicate 4294967296 (VScalar (SUint16 7))) 1
              = [VScalar (SUint16 0)]"
    by (simp add: fixed_elems_def)
  show ?thesis
    by (simp add: Marshal_def no_methods_def tag f2 f1 is_byte_def le_bytes_def upt_rec)
qed

text \<open>
  C6, as amended.  For a slice or array whose elements are not bytes, tagged \<open>Fixed(n)\<close>
  and of fewer than \<open>2^32\<close> elements: \<^verbatim>\<open>encodeSlice\<close> and \<^verbatim>\<open>encodeArray\<close> write no count and
  go, in order, through exactly \<open>n\<close> elements, the first \<open>min(n, len)\<close> of the sequence
  followed by zero values of the element type (\<^const>\<open>fixed_run\<close>), the elements beyond \<open>n\<close>
  being left out; they fail with the error of the first of the \<open>n\<close> that cannot be encoded,
  and when all can, the output is exactly their \<open>n\<close> encodings one after the other
  (\<^const>\<open>encodings\<close>).  \<^verbatim>\<open>decodeArray\<close> decodes \<open>n\<close> elements in order, the first into the
  array's own positions and those beyond its capacity into zero-valued temporaries that
  are dropped, and fills the positions from \<open>n\<close> on with zero values.  In particular, from
  the encodings of \<open>n\<close> codable elements it builds the array of the first ones,
  zero-filled, and leaves the reader right after the \<open>n\<close>-th.
\<close>

theorem fixed_sequence:
  assumes "parseTag tag = Inr n" "length xs < 2 ^ 32"
  shows "length (fixed_run T xs n) = unat n \<and>
         encodeSlice M \<sigma> T xs tag = encodings M \<sigma> (fixed_run T xs n) \<and>
         encodeArray M \<sigma> T xs tag = encodings M \<sigma> (fixed_run T xs n) \<and>
         (list_all (\<lambda>e. \<not> isl (encodeField M \<sigma> e [])) (fixed_run T xs n) \<longrightarrow>
            encodeSlice M \<sigma> T xs tag
              = Inr (concat (map (\<lambda>e. projr (encodeField M \<sigma> e [])) (fixed_run T xs n))) \<and>
            encodeArray M \<sigma> T xs tag
              = Inr (concat (map (\<lambda>e. projr (encodeField M \<sigma> e [])) (fixed_run T xs n)))) \<and>
         decodeArray M \<sigma> r T xs tag =
           (case decodeElems M \<sigma> r (fixed_run T xs n) of
              (Some e, ys, \<sigma>', r') \<Rightarrow> (Some e, take (length xs) ys @ drop (unat n) xs, \<sigma>', r')
            | (None, ys, \<sigma>', r') \<Rightarrow>
                (None, take (length xs) ys @ replicate (length xs - unat n) (zero T), \<sigma>', r')) \<and>
         (list_all (\<lambda>x. codable x \<and> type_of x = T) es \<and> length es = unat n \<and>
          list_all (\<lambda>x. unshared x \<and> wt x \<and> type_of x = T) xs \<and>
          (s \<noteq> [] \<or> ends_well_elems es) \<longrightarrow>
          (\<exists>enc. encodeElems no_methods \<sigma> es = Inr enc \<and>
                 decodeArray no_methods \<sigma>' (enc @ s) T xs tag
                   = (None, take (length xs) (map expected es)
                              @ replicate (length xs - unat n) (zero T), \<sigma>', s)))"
proof -
  have enc: "encodeSlice M \<sigma> T xs tag = encodings M \<sigma> (fixed_run T xs n)"
       "encodeArray M \<sigma> T xs tag = encodings M \<sigma> (fixed_run T xs n)"
    using assms parseTag_nonempty [OF assms(1)]
    by (simp_all add: fixed_elems_fixed_run encodeElems_encodings)
  have all: "encodings M \<sigma> (fixed_run T xs n)
               = Inr (concat (map (\<lambda>e. projr (encodeField M \<sigma> e [])) (fixed_run T xs n)))"
    if "list_all (\<lambda>e. \<not> isl (encodeField M \<sigma> e [])) (fixed_run T xs n)"
  proof -
    from that have "find (\<lambda>e. isl (encodeField M \<sigma> e [])) (fixed_run T xs n) = None"
      by (simp add: find_None_iff list_all_iff)
    then show ?thesis by (simp add: encodings_def)
  qed
  have dec: "decodeArray M \<sigma> r T xs tag =
           (case decodeElems M \<sigma> r (fixed_run T xs n) of
              (Some e, ys, \<sigma>', r') \<Rightarrow> (Some e, take (length xs) ys @ drop (unat n) xs, \<sigma>', r')
            | (None, ys, \<sigma>', r') \<Rightarrow>
                (None, take (length xs) ys @ replicate (length xs - unat n) (zero T), \<sigma>', r'))"
    for M \<sigma> r
    unfolding fixed_run_def by (rule decodeArray_fixed [OF assms])
  have stream: "\<exists>enc. encodeElems no_methods \<sigma> es = Inr enc \<and>
                 decodeArray no_methods \<sigma>' (enc @ s) T xs tag
                   = (None, take (length xs) (map expected es)
                              @ replicate (length xs - unat n) (zero T), \<sigma>', s)"
    if es: "list_all (\<lambda>x. codable x \<and> type_of x = T) es" "length es = unat n"
      and xs: "list_all (\<lambda>x. unshared x \<and> wt x \<and> type_of x = T) xs"
      and ne: "s \<noteq> [] \<or> ends_well_elems es"
  proof -
    have "\<exists>enc. encodeElems no_methods \<sigma> es = Inr enc \<and>
            decodeElems no_methods \<sigma>' (enc @ s) (fixed_run T xs n)
                = (None, map expected es, \<sigma>', s)"
    proof (rule elems_roundtrip)
      fix x and s :: "byte list" and t
      assume "x \<in> set es" "s \<noteq> [] \<or> ends_well [] x" "unshared t" "wt t"
        "type_of t = type_of x"
      with es(1) field_roundtrip [of x "[]" s t \<sigma> \<sigma>']
      show "\<exists>enc. encodeField no_methods \<sigma> x [] = Inr enc \<and>
                  decodeField no_methods \<sigma>' (enc @ s) t [] = (None, expected x, \<sigma>', s)"
        by (auto simp: list_all_iff fits_untagged cut_untagged)
    next
      fix x enc
      assume "x \<in> set es" "emits [] x" "encodeField no_methods \<sigma> x [] = Inr enc"
      with es(1) emits_nonempty [of x "[]" no_methods \<sigma> enc]
      show "enc \<noteq> []" by (auto simp: list_all_iff fits_untagged)
    next
      have "unshared t \<and> wt t \<and> type_of t = T" if "t \<in> set (fixed_run T xs n)" for t
        using that xs by (auto simp: fixed_run_def list_all_iff dest: in_set_takeD)
      with es
      show "list_all2 (\<lambda>x t. unshared t \<and> wt t \<and> type_of t = type_of x) es (fixed_run T xs n)"
        unfolding list_all2_conv_all_nth list_all_iff
        by (metis length_fixed_run nth_mem)
    next
      from ne show "s \<noteq> [] \<or> ends_well_elems es" .
    qed
    then obtain enc where "encodeElems no_methods \<sigma> es = Inr enc"
      "decodeElems no_methods \<sigma>' (enc @ s) (fixed_run T xs n) = (None, map expected es, \<sigma>', s)"
      by auto
    then show ?thesis
      unfolding dec by simp
  qed
  from enc all stream dec [of M \<sigma> r] show ?thesis
    by (simp del: decodeArray.simps encodeSlice.simps encodeArray.simps)
qed

theorem fixed_sequence_witness:
  "parseTag ''5'' = Inr 5 \<and>
   length [VScalar (SInt32 1), VScalar (SInt32 2), VScalar (SInt32 3)] < 2 ^ 32 \<and>
   fixed_run (TScalar KInt32) [VScalar (SInt32 1), VScalar (SInt32 2), VScalar (SInt32 3)] 5
     = [VScalar (SInt32 1), VScalar (SInt32 2), VScalar (SInt32 3), VScalar (SInt32 0),
        VScalar (SInt32 0)] \<and>
   list_all (\<lambda>e. \<not> isl (encodeField no_methods no_variables e []))
     [VScalar (SInt32 1), VScalar (SInt32 2), VScalar (SInt32 3), VScalar (SInt32 0),
      VScalar (SInt32 0)] \<and>
   encodeSlice no_methods no_variables (TScalar KInt32)
       [VScalar (SInt32 1), VScalar (SInt32 2), VScalar (SInt32 3)] ''5''
     = Inr [1, 0, 0, 0, 2, 0, 0, 0, 3, 0, 0, 0, 0, 0, 0, 0, 0, 0, 0, 0] \<and>
   list_all (\<lambda>x. codable x \<and> type_of x = TScalar KInt32)
     [VScalar (SInt32 1), VScalar (SInt32 2), VScalar (SInt32 3), VScalar (SInt32 4),
      VScalar (SInt32 5)] \<and>
   length [VScalar (SInt32 1), VScalar (SInt32 2), VScalar (SInt32 3), VScalar (SInt32 4),
      VScalar (SInt32 5)] = unat (5 :: 32 word) \<and>
   list_all (\<lambda>x. unshared x \<and> wt x \<and> type_of x = TScalar KInt32)
     [VScalar (SInt32 7), VScalar (SInt32 8), VScalar (SInt32 9)] \<and>
   ends_well_elems
     [VScalar (SInt32 1), VScalar (SInt32 2), VScalar (SInt32 3), VScalar (SInt32 4),
      VScalar (SInt32 5)] \<and>
   (\<exists>enc. encodeElems no_methods no_variables
             [VScalar (SInt32 1), VScalar (SInt32 2), VScalar (SInt32 3), VScalar (SInt32 4),
              VScalar (SInt32 5)] = Inr enc \<and>
          decodeArray no_methods no_variables (enc @ []) (TScalar KInt32)
             [VScalar (SInt32 7), VScalar (SInt32 8), VScalar (SInt32 9)] ''5''
            = (None, [VScalar (SInt32 1), VScalar (SInt32 2), VScalar (SInt32 3)],
               no_variables, []))"
proof -
  have tag: "parseTag ''5'' = Inr 5"
    by (simp add: parseTag_def ParseUint_def is_digit_def)
  have len: "length [VScalar (SInt32 1), VScalar (SInt32 2), VScalar (SInt32 3)] < 2 ^ 32"
    and len': "length [VScalar (SInt32 7), VScalar (SInt32 8), VScalar (SInt32 9)] < 2 ^ 32"
    by simp_all
  have run: "fixed_run (TScalar KInt32)
               [VScalar (SInt32 1), VScalar (SInt32 2), VScalar (SInt32 3)] 5
     = [VScalar (SInt32 1), VScalar (SInt32 2), VScalar (SInt32 3), VScalar (SInt32 0),
        VScalar (SInt32 0)]"
    by (simp add: fixed_run_def replicate_numeral)
  have ok: "list_all (\<lambda>e. \<not> isl (encodeField no_methods no_variables e []))
     [VScalar (SInt32 1), VScalar (SInt32 2), VScalar (SInt32 3), VScalar (SInt32 0),
      VScalar (SInt32 0)]"
    by simp
  note a = fixed_sequence [OF tag len, of "TScalar KInt32" no_methods no_variables "[]" "[]" "[]"
      no_variables]
  note b = fixed_sequence [OF tag len', of "TScalar KInt32" no_methods no_variables "[]"
      "[VScalar (SInt32 1), VScalar (SInt32 2), VScalar (SInt32 3), VScalar (SInt32 4),
        VScalar (SInt32 5)]" "[]" no_variables]
  from a ok have 1: "encodeSlice no_methods no_variables (TScalar KInt32)
       [VScalar (SInt32 1), VScalar (SInt32 2), VScalar (SInt32 3)] ''5''
     = Inr [1, 0, 0, 0, 2, 0, 0, 0, 3, 0, 0, 0, 0, 0, 0, 0, 0, 0, 0, 0]"
    unfolding run
    by (simp add: encodings_def le_bytes_def upt_rec del: encodeSlice.simps encodeArray.simps
          decodeArray.simps encodeElems.simps)
  from b have 2: "\<exists>enc. encodeElems no_methods no_variables
             [VScalar (SInt32 1), VScalar (SInt32 2), VScalar (SInt32 3), VScalar (SInt32 4),
              VScalar (SInt32 5)] = Inr enc \<and>
          decodeArray no_methods no_variables (enc @ []) (TScalar KInt32)
             [VScalar (SInt32 7), VScalar (SInt32 8), VScalar (SInt32 9)] ''5''
            = (None, [VScalar (SInt32 1), VScalar (SInt32 2), VScalar (SInt32 3)],
               no_variables, [])"
    by (simp del: decodeArray.simps encodeElems.simps encodeSlice.simps encodeArray.simps)
  from tag run ok 1 2 show ?thesis by simp
qed

text \<open>
  C7.  The claim: a record field tagged \<^verbatim>\<open>-\<close> contributes no bytes and is left alone by the
  decoder.  As stated it fails, by design, for a field whose type has a custom codec: both
  loops test for \<^verbatim>\<open>BinaryMarshaler\<close>/\<^verbatim>\<open>BinaryUnmarshaler\<close> before they look at the tag, so such a
  field is written as prefix and payload and overwritten on decode, whatever its tag.
\<close>

theorem excluded_field_counterexample:
  "encodeStruct test_methods no_variables
     [(StructField ''Custom'' True ''-'', CustomType [116, 101, 115, 116])]
     = Inr [11, 0, 0, 0, 99, 117, 115, 116, 111, 109, 58, 116, 101, 115, 116] \<and>
   encodeStruct test_methods no_variables [] = Inr [] \<and>
   decodeStruct test_methods no_variables
     [11, 0, 0, 0, 99, 117, 115, 116, 111, 109, 58, 116, 101, 115, 116]
     [(StructField ''Custom'' True ''-'', CustomType [])]
     = (None, [(StructField ''Custom'' True ''-'', CustomType [116, 101, 115, 116])],
        no_variables, [])"
  by (simp add: test_methods_def CustomType_MarshalBinary_ptr_def
        CustomType_UnmarshalBinary_ptr_def CustomType_def CustomType_type_def
        custom_prefix_def Write_uint32_def le_bytes_def upt_rec Read_uint32_def
        ReadFull_def le_word_def Reader_Read_def pointee_def)

text \<open>
  C7, as amended.  For a record field tagged \<^verbatim>\<open>-\<close> whose type has no custom codec, the
  encoding of the record is the encoding of the record without the field, and decoding the
  record is decoding the record without the field, with the field put back unchanged at
  its place (also when a later field fails): the other fields are encoded and decoded as
  they are without it, in declaration order.
\<close>

theorem excluded_field:
  assumes "sf_tag f = ''-''" "MarshalBinary M v = None"
    "\<not> is_struct v \<or> UnmarshalBinary M (VPtr v) = None"
  shows "encodeStruct M \<sigma> (fs1 @ (f, v) # fs2) = encodeStruct M \<sigma> (fs1 @ fs2) \<and>
         encodeField M \<sigma> (VStruct (fs1 @ (f, v) # fs2)) tag
           = encodeField M \<sigma> (VStruct (fs1 @ fs2)) tag \<and>
         decodeStruct M \<sigma> r (fs1 @ (f, v) # fs2) =
           (case decodeStruct M \<sigma> r (fs1 @ fs2) of
              (e, fs', \<sigma>', r') \<Rightarrow>
                (e, take (length fs1) fs' @ (f, v) # drop (length fs1) fs', \<sigma>', r'))"
  using encodeStruct_excluded [OF assms(1,2)] decodeStruct_excluded [OF assms(1,3)]
  by simp

theorem excluded_field_witness:
  "sf_tag (StructField ''Data'' True ''-'') = ''-'' \<and>
   MarshalBinary no_methods (VSlice (TScalar KUint32) [VScalar (SUint32 100)]) = None \<and>
   UnmarshalBinary no_methods (VPtr (VSlice (TScalar KUint32) [VScalar (SUint32 100)])) = None \<and>
   encodeStruct no_methods no_variables
     ([] @ (StructField ''Data'' True ''-'', VSlice (TScalar KUint32) [VScalar (SUint32 100)])
         # [(StructField ''Number'' True [], VScalar (SUint8 42))])
     = encodeStruct no_methods no_variables
         ([] @ [(StructField ''Number'' True [], VScalar (SUint8 42))]) \<and>
   decodeStruct no_methods no_variables [42]
     ([] @ (StructField ''Data'' True ''-'', VSlice (TScalar KUint32) [VScalar (SUint32 100)])
         # [(StructField ''Number'' True [], VScalar (SUint8 0))])
     = (None, [(StructField ''Data'' True ''-'', VSlice (TScalar KUint32) [VScalar (SUint32 100)]),
               (StructField ''Number'' True [], VScalar (SUint8 42))], no_variables, [])"
  using excluded_field
    [of "StructField ''Data'' True ''-''" no_methods
        "VSlice (TScalar KUint32) [VScalar (SUint32 100)]" no_variables "[]"
        "[(StructField ''Number'' True [], VScalar (SUint8 42))]" "[]"
        "[42]"]
    excluded_field
    [of "StructField ''Data'' True ''-''" no_methods
        "VSlice (TScalar KUint32) [VScalar (SUint32 100)]" no_variables "[]"
        "[(StructField ''Number'' True [], VScalar (SUint8 0))]" "[]"
        "[42]"]
  by (simp add: no_methods_def binary_Read_def ReadFull_def le_word_def)

text \<open>
  C8.  A top-level value with the self-encode capability is marshalled to exactly what its
  \<^verbatim>\<open>MarshalBinary\<close> returns, with no structural processing; a top-level target with the
  self-decode capability is handed the whole input, and the count of remaining bytes is
  zero whatever the method did.
\<close>

theorem top_level_custom_codec:
  "(MarshalBinary M v = Some marshal \<longrightarrow> Marshal M \<sigma> v = marshal \<sigma>) \<and>
   (UnmarshalBinary M target = Some unmarshal \<longrightarrow>
      UnmarshalPartial M \<sigma> data target
        = (0, fst (unmarshal \<sigma> data), fst (snd (unmarshal \<sigma> data)),
           snd (snd (unmarshal \<sigma> data))))"
  by (simp add: Marshal_def UnmarshalPartial_def split_beta)

theorem top_level_custom_codec_witness:
  "MarshalBinary test_methods (CustomType [116, 101, 115, 116])
     = Some (\<lambda>\<sigma>. Inr [99, 117, 115, 116, 111, 109, 58, 116, 101, 115, 116]) \<and>
   Marshal test_methods no_variables (CustomType [116, 101, 115, 116])
     = Inr [99, 117, 115, 116, 111, 109, 58, 116, 101, 115, 116] \<and>
   UnmarshalBinary test_methods (VPtr (CustomType []))
     = Some (CustomType_UnmarshalBinary_ptr (VPtr (CustomType []))) \<and>
   UnmarshalPartial test_methods no_variables
       [99, 117, 115, 116, 111, 109, 58, 116, 101, 115, 116, 49, 50, 51]
       (VPtr (CustomType []))
     = (0, None, VPtr (CustomType [116, 101, 115, 116, 49, 50, 51]), no_variables)"
proof -
  have m: "MarshalBinary test_methods (CustomType [116, 101, 115, 116])
             = Some (\<lambda>\<sigma>. Inr [99, 117, 115, 116, 111, 109, 58, 116, 101, 115, 116])"
    by (simp add: test_methods_def CustomType_def CustomType_type_def custom_prefix_def)
  have u: "UnmarshalBinary test_methods (VPtr (CustomType []))
             = Some (CustomType_UnmarshalBinary_ptr (VPtr (CustomType [])))"
    by (simp add: test_methods_def CustomType_def CustomType_type_def)
  have f: "CustomType_UnmarshalBinary_ptr (VPtr (CustomType [])) no_variables
              [99, 117, 115, 116, 111, 109, 58, 116, 101, 115, 116, 49, 50, 51]
              = (None, VPtr (CustomType [116, 101, 115, 116, 49, 50, 51]), no_variables)"
    by (simp add: CustomType_UnmarshalBinary_ptr_def custom_prefix_def)
  from top_level_custom_codec
    [of test_methods "CustomType [116, 101, 115, 116]"
        "\<lambda>\<sigma>. Inr [99, 117, 115, 116, 111, 109, 58, 116, 101, 115, 116]" no_variables
        "VPtr (CustomType [])" "CustomType_UnmarshalBinary_ptr (VPtr (CustomType []))"
        "[99, 117, 115, 116, 111, 109, 58, 116, 101, 115, 116, 49, 50, 51]"]
    m u f
  show ?thesis by simp
qed

text \<open>
  C9.  The claim: \<^verbatim>\<open>Marshal\<close> of a non-nil pointer to \<open>v\<close> gives the bytes of \<^verbatim>\<open>Marshal\<close> of \<open>v\<close>,
  \<^verbatim>\<open>Marshal\<close> of a nil pointer fails, and decoding into a nil pointer allocates and decodes
  into the pointee.  As stated the first part fails, by design: \<^verbatim>\<open>Marshal\<close> asks the value it is
  given for \<^verbatim>\<open>MarshalBinary\<close> first, and a method with a pointer receiver (as in the README's
  example) belongs to the pointer only.
\<close>

theorem pointer_counterexample:
  "Marshal readme_methods no_variables (VPtr (CustomType [116, 101, 115, 116]))
     = Inr [99, 117, 115, 116, 111, 109, 58, 116, 101, 115, 116] \<and>
   Marshal readme_methods no_variables (CustomType [116, 101, 115, 116])
     = Inr [4, 0, 0, 0, 116, 101, 115, 116]"
  by (simp add: Marshal_def readme_methods_def CustomType_MarshalBinary_ptr_def CustomType_def
        CustomType_type_def custom_prefix_def encodeString_def Write_uint32_def le_bytes_def
        upt_rec)

text \<open>
  C9, as amended.  \<^verbatim>\<open>encodeField\<close> on a non-nil pointer is \<^verbatim>\<open>encodeField\<close> on the pointee, and
  \<^verbatim>\<open>Marshal\<close> of the pointer is \<^verbatim>\<open>Marshal\<close> of the pointee whenever the type assertion
  \<^verbatim>\<open>v.(BinaryMarshaler)\<close> gives the same for both; \<^verbatim>\<open>encodeField\<close> on a nil pointer fails, and so
  does \<^verbatim>\<open>Marshal\<close> unless the pointer type has \<^verbatim>\<open>MarshalBinary\<close>; \<^verbatim>\<open>decodeField\<close> on a nil pointer
  does what it does on a pointer to a fresh zero value: the result is a non-nil pointer whose
  pointee is what decoding into the zero value gives, also when that fails.  (The last two
  lines say the first for a pointer to a variable of the store.)
\<close>

theorem pointer_handling:
  "(MarshalBinary M (VPtr v) = MarshalBinary M v \<longrightarrow> Marshal M \<sigma> (VPtr v) = Marshal M \<sigma> v) \<and>
   encodeField M \<sigma> (VPtr v) tag = encodeField M \<sigma> v tag \<and>
   (MarshalBinary M (VNilPtr T) = None \<longrightarrow>
      Marshal M \<sigma> (VNilPtr T) = Inl (Wrapped ''error marshaling value'' NilPointer)) \<and>
   encodeField M \<sigma> (VNilPtr T) tag = Inl NilPointer \<and>
   decodeField M \<sigma> r (VNilPtr T) tag = decodeField M \<sigma> r (VPtr (zero T)) tag \<and>
   (\<exists>e x \<sigma>' r'. decodeField M \<sigma> r (VNilPtr T) tag = (e, VPtr x, \<sigma>', r') \<and>
                decodeField M \<sigma> r (zero T) tag = (e, x, \<sigma>', r')) \<and>
   (MarshalBinary M (VRef T a) = MarshalBinary M (load \<sigma> T a) \<longrightarrow>
      Marshal M \<sigma> (VRef T a) = Marshal M \<sigma> (load \<sigma> T a)) \<and>
   encodeField M \<sigma> (VRef T a) tag = encodeField M \<sigma> (load \<sigma> T a) tag"
  by (auto simp: Marshal_def split: prod.splits option.splits)

theorem pointer_handling_witness:
  "MarshalBinary no_methods (VPtr (VScalar (SUint16 258)))
     = MarshalBinary no_methods (VScalar (SUint16 258)) \<and>
   Marshal no_methods no_variables (VPtr (VScalar (SUint16 258)))
     = Marshal no_methods no_variables (VScalar (SUint16 258)) \<and>
   MarshalBinary no_methods (VNilPtr (TScalar KUint16)) = None \<and>
   Marshal no_methods no_variables (VNilPtr (TScalar KUint16))
     = Inl (Wrapped ''error marshaling value'' NilPointer) \<and>
   decodeField no_methods no_variables [2, 1] (VNilPtr (TScalar KUint16)) []
     = decodeField no_methods no_variables [2, 1] (VPtr (zero (TScalar KUint16))) [] \<and>
   MarshalBinary no_methods (VRef (TScalar KUint16) 0)
     = MarshalBinary no_methods (load no_variables (TScalar KUint16) 0) \<and>
   Marshal no_methods no_variables (VRef (TScalar KUint16) 0)
     = Marshal no_methods no_variables (load no_variables (TScalar KUint16) 0)"
  using pointer_handling [where M = no_methods and v = "VScalar (SUint16 258)"
      and \<sigma> = no_variables and T = "TScalar KUint16" and tag = "[]" and r = "[2, 1]" and a = 0]
  by (simp add: no_methods_def)

text \<open>
  C10.  A nil slice is marshalled to the 4-byte zero count, as the empty slice is, and
  unmarshalling those bytes gives the empty slice (lemma \<open>nil_slice_generic\<close> above, for
  element types other than bytes).  For a nil \<^verbatim>\<open>[]byte\<close> the four bytes are the same, but
  \<^verbatim>\<open>decodeBytes\<close> then calls \<^verbatim>\<open>buf.Read\<close> with an empty slice on the exhausted reader, which
  returns \<^verbatim>\<open>io.EOF\<close>: \<^verbatim>\<open>Unmarshal\<close> fails and the target stays nil.
\<close>

theorem nil_byte_slice_not_decoded:
  "Marshal no_methods \<sigma> (VNilSlice (TScalar KUint8)) = Inr [0, 0, 0, 0] \<and>
   Marshal no_methods \<sigma> (VSlice (TScalar KUint8) []) = Inr [0, 0, 0, 0] \<and>
   Unmarshal no_methods \<sigma> [0, 0, 0, 0] (VPtr (VNilSlice (TScalar KUint8)))
     = (Some (Wrapped ''error unmarshaling value'' EOF), VPtr (VNilSlice (TScalar KUint8)), \<sigma>)"
  by (simp add: Marshal_def Unmarshal_def UnmarshalPartial_def no_methods_def is_byte_def
        encodeBytes_def decodeBytes_def read_payload_def Reader_Read_def bytes_of_def
        Read_uint32_def ReadFull_def le_word_def Write_uint32_def le_bytes_def upt_rec)

end
